theory Spec2Isabelle
  imports Complex_Main "HOL-Library.Word" "HOL-Library.Log_Nat"
begin

section \<open>Threads, scheduler and locks (thread.cc, scheduler.cc, synch.cc)\<close>

subsection \<open>Data model\<close>

type_synonym tid = nat
type_synonym lid = nat

datatype ThreadStatus = JUST_CREATED | RUNNING | READY | BLOCKED

datatype SchedulerType = RR | FCFS | Priority | SJF

datatype IntStatus = IntOff | IntOn

text \<open>
  Fatal outcomes of the simulator: a failed \<^verbatim>\<open>ASSERT\<close> / \<^verbatim>\<open>ASSERTNOTREACHED\<close>,
  a dereferenced \<^verbatim>\<open>NULL\<close> pointer, a \<^verbatim>\<open>bcopy\<close> outside its buffer, a \<^verbatim>\<open>new\<close> that
  throws (nothing catches the exception), and the end of the recursion budget of the
  donation walk.
\<close>

datatype error = AssertionFailed | NullPointer | BufferOverrun | BadAlloc | OutOfFuel

text \<open>
  The members of \<^verbatim>\<open>class Thread\<close> that the scheduling and donation code reads or writes.
  Threads and locks live in stores indexed by identifiers; a pointer is an identifier and
  \<^verbatim>\<open>NULL\<close> is \<open>None\<close>.
\<close>

record Thread =
  name :: string
  status :: ThreadStatus
  isJoinable :: bool
  joinCalled :: bool
  finishCalled :: bool
  forkCalled :: bool
  readyToFinish :: bool
  priority :: int
  donatedPriority :: int
  isDonated :: bool
  desiredJoin :: "tid option"
  desiredLock :: "lid option"
  burstTime :: int
  startTicks :: int

record Lock =
  locked :: bool
  lockHolder :: "tid option"
  waitQueue :: "tid list"

record Scheduler =
  schedulerType :: SchedulerType
  isPreemptive :: bool
  readyList :: "tid list"
  sleepList :: "(tid \<times> int) list"
  toBeDestroyed :: "tid option"

record Kernel =
  threads :: "tid \<Rightarrow> Thread"
  locks :: "lid \<Rightarrow> Lock"
  scheduler :: Scheduler
  currentThread :: tid
  level :: IntStatus
  userTicks :: int

subsection \<open>Thread::setPriority and the constructor\<close>

text \<open>\<^verbatim>\<open>Thread::setPriority\<close>: returns the old value and the updated thread.\<close>

definition setPriority :: "Thread \<Rightarrow> int \<Rightarrow> int \<times> Thread" where
  "setPriority this newPriority =
     (let newPriority = (if newPriority < 0 then 0
                         else if newPriority > 7 then 7 else newPriority);
          oldPriority = priority this
      in (oldPriority, this\<lparr>priority := newPriority\<rparr>))"

text \<open>
  \<^verbatim>\<open>Thread::Thread\<close>. The member \<^verbatim>\<open>priority\<close> is uninitialised storage when
  \<^verbatim>\<open>setPriority\<close> is called; its old value is discarded by the constructor, so the
  model starts it at \<open>0\<close>.
\<close>

definition Thread_ctor :: "string \<Rightarrow> int \<Rightarrow> bool \<Rightarrow> Thread" where
  "Thread_ctor threadName prio joinable =
     (let this = \<lparr>name = threadName, status = JUST_CREATED, isJoinable = joinable,
                  joinCalled = False, finishCalled = False, forkCalled = False,
                  readyToFinish = False, priority = 0, donatedPriority = 0,
                  isDonated = False, desiredJoin = None, desiredLock = None,
                  burstTime = 0, startTicks = 0\<rparr>;
          this = snd (setPriority this prio)
      in this\<lparr>donatedPriority := 0, isDonated := False, desiredJoin := None,
              desiredLock := None, burstTime := 10, startTicks := 0\<rparr>)"

subsection \<open>Scheduler::Scheduler\<close>

text \<open>
  The constructor's parameter is called \<^verbatim>\<open>isPreemptive\<close> like the member, and hides it in
  the body: \<^verbatim>\<open>this->isPreemptive = isPreemptive\<close> stores the parameter in the member, the
  test reads the parameter, and the last statement \<^verbatim>\<open>isPreemptive = FALSE\<close> assigns the
  parameter, a local that dies with the call. The model keeps the local explicit.
\<close>

definition Scheduler_ctor :: "SchedulerType \<Rightarrow> bool \<Rightarrow> error + Scheduler" where
  "Scheduler_ctor initSchedulerType isPreemptive_param =
     (let this = \<lparr>schedulerType = initSchedulerType, isPreemptive = isPreemptive_param,
                  readyList = [], sleepList = [], toBeDestroyed = None\<rparr>
      in if isPreemptive_param = True \<and> schedulerType this = FCFS then Inl AssertionFailed
         else (let this = this\<lparr>readyList := [], sleepList := [], toBeDestroyed := None\<rparr>;
                   isPreemptive_param = False
               in Inr this))"

definition IsPreemptive :: "Scheduler \<Rightarrow> bool" where
  "IsPreemptive this = isPreemptive this"

definition getSchedulerType :: "Scheduler \<Rightarrow> SchedulerType" where
  "getSchedulerType this = schedulerType this"

subsection \<open>Priorities and comparators\<close>

text \<open>
  \<^verbatim>\<open>Thread::getPriority\<close> and \<^verbatim>\<open>Thread::getEffectivePriority\<close> assert that interrupts
  are off. Every caller modelled here (\<^verbatim>\<open>ReadyToRun\<close>, \<^verbatim>\<open>FindNextToRun\<close>,
  \<^verbatim>\<open>DonatePriority\<close>, \<^verbatim>\<open>UpdateReadyList\<close>) makes the same assertion first, so the
  getters are pure readers of the thread.
\<close>

definition getPriority :: "Thread \<Rightarrow> int" where
  "getPriority this = priority this"

definition getEffectivePriority :: "Thread \<Rightarrow> int" where
  "getEffectivePriority this =
     (if isDonated this = False then priority this else donatedPriority this)"

definition getBurstTime :: "Thread \<Rightarrow> int" where
  "getBurstTime this = burstTime this"

definition PriorityComparator :: "Thread \<Rightarrow> Thread \<Rightarrow> int" where
  "PriorityComparator a b =
     (if getPriority a > getPriority b then -1
      else if getPriority a < getPriority b then 1 else 0)"

definition EffectivePriorityComparator :: "Thread \<Rightarrow> Thread \<Rightarrow> int" where
  "EffectivePriorityComparator a b =
     (if getEffectivePriority a > getEffectivePriority b then -1
      else if getEffectivePriority a < getEffectivePriority b then 1 else 0)"

definition CPUBurstTimeComparator :: "Thread \<Rightarrow> Thread \<Rightarrow> int" where
  "CPUBurstTimeComparator a b =
     (if getBurstTime a < getBurstTime b then -1
      else if getBurstTime a > getBurstTime b then 1 else 0)"

definition ThreadComparator :: "Kernel \<Rightarrow> tid \<Rightarrow> tid \<Rightarrow> int" where
  "ThreadComparator k a b =
     (case getSchedulerType (scheduler k) of
        Priority \<Rightarrow>
          if IsPreemptive (scheduler k) = True
          then EffectivePriorityComparator (threads k a) (threads k b)
          else PriorityComparator (threads k a) (threads k b)
      | RR \<Rightarrow> 0
      | FCFS \<Rightarrow> 0
      | SJF \<Rightarrow> CPUBurstTimeComparator (threads k a) (threads k b))"

definition CompareThread :: "Kernel \<Rightarrow> tid \<Rightarrow> tid \<Rightarrow> int" where
  "CompareThread k thread1 thread2 = ThreadComparator k thread1 thread2"

subsection \<open>The ready list\<close>

text \<open>
  Modelled from the spec: \<^verbatim>\<open>List<T>\<close> and \<^verbatim>\<open>SortedList<T>\<close> (lib/list.cc is not part
  of the sources at hand). A list is the sequence of its elements: \<^verbatim>\<open>Append\<close> adds at
  the end, \<^verbatim>\<open>RemoveFront\<close> takes the head, \<^verbatim>\<open>Remove\<close> deletes the element,
  \<^verbatim>\<open>IsInList\<close> is membership. The ready list is sorted under the active comparator
  and \<^verbatim>\<open>Insert\<close> is stable: the new element goes before the first element it compares
  strictly smaller than, after all its ties.
\<close>

fun SortedList_Insert :: "('a \<Rightarrow> 'a \<Rightarrow> int) \<Rightarrow> 'a \<Rightarrow> 'a list \<Rightarrow> 'a list" where
  "SortedList_Insert cmp x [] = [x]"
| "SortedList_Insert cmp x (y # ys) =
     (if cmp x y < 0 then x # y # ys else y # SortedList_Insert cmp x ys)"

definition setStatus :: "Kernel \<Rightarrow> tid \<Rightarrow> ThreadStatus \<Rightarrow> Kernel" where
  "setStatus k t st = k\<lparr>threads := (threads k)(t := (threads k t)\<lparr>status := st\<rparr>)\<rparr>"

definition ReadyToRun :: "Kernel \<Rightarrow> tid \<Rightarrow> error + Kernel" where
  "ReadyToRun k thread =
     (if level k \<noteq> IntOff then Inl AssertionFailed
      else let k1 = setStatus k thread READY
           in Inr (k1\<lparr>scheduler := (scheduler k1)
                    \<lparr>readyList := SortedList_Insert (ThreadComparator k1) thread
                                    (readyList (scheduler k1))\<rparr>\<rparr>))"

definition RemoveFront :: "Kernel \<Rightarrow> tid \<times> Kernel" where
  "RemoveFront k =
     (hd (readyList (scheduler k)),
      k\<lparr>scheduler := (scheduler k)\<lparr>readyList := tl (readyList (scheduler k))\<rparr>\<rparr>)"

text \<open>
  \<^verbatim>\<open>Scheduler::FindNextToRun\<close> (the version with the preemptive branch). \<^verbatim>\<open>RemoveFront\<close>
  is only reached on a non-empty list.
\<close>

definition FindNextToRun :: "Kernel \<Rightarrow> error + (tid option \<times> Kernel)" where
  "FindNextToRun k =
     (if level k \<noteq> IntOff then Inl AssertionFailed
      else if isPreemptive (scheduler k) = False then
        (if readyList (scheduler k) = [] then Inr (None, k)
         else Inr (Some (fst (RemoveFront k)), snd (RemoveFront k)))
      else if status (threads k (currentThread k)) = BLOCKED then
        (if readyList (scheduler k) = [] then Inr (None, k)
         else Inr (Some (fst (RemoveFront k)), snd (RemoveFront k)))
      else if readyList (scheduler k) = [] then Inr (Some (currentThread k), k)
      else (let cmp = CompareThread k (hd (readyList (scheduler k))) (currentThread k)
            in if cmp \<le> 0 then Inr (Some (fst (RemoveFront k)), snd (RemoveFront k))
               else Inr (Some (currentThread k), k)))"

text \<open>
  \<^verbatim>\<open>Scheduler::Run\<close> up to the call of \<^verbatim>\<open>SWITCH\<close>, where the processor passes to
  \<^verbatim>\<open>nextThread\<close>: the result is the kernel state at that moment. Saving user registers,
  flushing the TLB and the stack fence-post check do not touch the modelled state.
  Modelled from the spec: \<^verbatim>\<open>setCPUBurstTicks\<close> (thread.h is not part of the sources at
  hand) records the dispatch time in \<^verbatim>\<open>startTicks\<close>.
\<close>

definition Run :: "Kernel \<Rightarrow> tid \<Rightarrow> bool \<Rightarrow> error + Kernel" where
  "Run k nextThread finishing =
     (let oldThread = currentThread k
      in if level k \<noteq> IntOff then Inl AssertionFailed
         else if finishing \<and> toBeDestroyed (scheduler k) \<noteq> None then Inl AssertionFailed
         else (let k1 = (if finishing
                         then k\<lparr>scheduler := (scheduler k)\<lparr>toBeDestroyed := Some oldThread\<rparr>\<rparr>
                         else k);
                   k2 = k1\<lparr>currentThread := nextThread\<rparr>;
                   k3 = setStatus k2 nextThread RUNNING
               in Inr (k3\<lparr>threads := (threads k3)
                          (nextThread := (threads k3 nextThread)\<lparr>startTicks := userTicks k3\<rparr>)\<rparr>)))"

definition IsInList :: "'a list \<Rightarrow> 'a \<Rightarrow> bool" where
  "IsInList xs x = (x \<in> set xs)"

text \<open>\<^verbatim>\<open>Scheduler::UpdateReadyList\<close>: take the thread out and insert it again.\<close>

definition UpdateReadyList :: "Kernel \<Rightarrow> tid \<Rightarrow> error + (bool \<times> Kernel)" where
  "UpdateReadyList k updatedThread =
     (if level k \<noteq> IntOff then Inl AssertionFailed
      else if IsInList (readyList (scheduler k)) updatedThread = False then Inr (False, k)
      else (let removed = remove1 updatedThread (readyList (scheduler k))
            in Inr (True, k\<lparr>scheduler := (scheduler k)
                     \<lparr>readyList := SortedList_Insert (ThreadComparator k) updatedThread removed\<rparr>\<rparr>)))"

subsection \<open>Priority donation\<close>

text \<open>
  \<^verbatim>\<open>Scheduler::DonatePriority\<close> and \<^verbatim>\<open>Thread::setEffectivePriority\<close> call each other
  through \<^verbatim>\<open>NotifyDesiredLockNewDonation\<close> (\<^verbatim>\<open>Lock::DonatePriorityToLockHolder\<close>) and
  \<^verbatim>\<open>NotifyDesiredJoinNewDonation\<close>. Nothing in the code bounds the walk, so the model
  carries a recursion budget and ends in \<open>OutOfFuel\<close> when it is used up. The donee is a
  pointer that may be \<^verbatim>\<open>NULL\<close> (a lock without holder): comparing by priority or burst
  time then dereferences it, the round-robin and FCFS comparators do not look at it.
\<close>

fun DonatePriority :: "nat \<Rightarrow> Kernel \<Rightarrow> tid \<Rightarrow> tid option \<Rightarrow> error + Kernel"
and setEffectivePriority :: "nat \<Rightarrow> Kernel \<Rightarrow> tid \<Rightarrow> int \<Rightarrow> error + (int \<times> Kernel)"
where
  "DonatePriority 0 k doner donee = Inl OutOfFuel"
| "DonatePriority (Suc n) k doner donee =
     (if level k \<noteq> IntOff then Inl AssertionFailed
      else if Some doner = donee then Inl AssertionFailed
      else (case donee of
              None \<Rightarrow>
                (if getSchedulerType (scheduler k) = RR \<or> getSchedulerType (scheduler k) = FCFS
                 then Inr k else Inl NullPointer)
            | Some d \<Rightarrow>
                if CompareThread k doner d < 0
                then (case setEffectivePriority n k d (getEffectivePriority (threads k doner)) of
                        Inl e \<Rightarrow> Inl e
                      | Inr (old, k') \<Rightarrow> Inr k')
                else Inr k))"
| "setEffectivePriority n k this newDonatedPriority =
     (if level k \<noteq> IntOff then Inl AssertionFailed
      else if \<not> newDonatedPriority \<ge> 0 then Inl AssertionFailed
      else (let oldDonatedPriority = donatedPriority (threads k this);
                k1 = k\<lparr>threads := (threads k)
                       (this := (threads k this)\<lparr>donatedPriority := newDonatedPriority,
                                                  isDonated := True\<rparr>)\<rparr>
            in case UpdateReadyList k1 this of
                 Inl e \<Rightarrow> Inl e
               | Inr (updated, k2) \<Rightarrow>
                   (case (case desiredLock (threads k2 this) of
                            None \<Rightarrow> Inr k2
                          | Some l \<Rightarrow> DonatePriority n k2 this (lockHolder (locks k2 l))) of
                      Inl e \<Rightarrow> Inl e
                    | Inr k3 \<Rightarrow>
                        (case (case desiredJoin (threads k3 this) of
                                 None \<Rightarrow> Inr k3
                               | Some j \<Rightarrow> DonatePriority n k3 this (Some j)) of
                           Inl e \<Rightarrow> Inl e
                         | Inr k4 \<Rightarrow> Inr (oldDonatedPriority, k4)))))"

text \<open>\<^verbatim>\<open>Thread::resetEffectivePriority\<close>: returns whether the thread had a donation.\<close>

definition resetEffectivePriority :: "Kernel \<Rightarrow> tid \<Rightarrow> error + (bool \<times> Kernel)" where
  "resetEffectivePriority k this =
     (if level k \<noteq> IntOff then Inl AssertionFailed
      else (let oldValue = isDonated (threads k this)
            in if oldValue = True
               then (case UpdateReadyList
                            (k\<lparr>threads := (threads k)(this := (threads k this)\<lparr>isDonated := False\<rparr>)\<rparr>)
                            this of
                       Inl e \<Rightarrow> Inl e
                     | Inr (updated, k') \<Rightarrow> Inr (oldValue, k'))
               else Inr (oldValue, k)))"

subsection \<open>Thread::Yield and Thread::Sleep\<close>

text \<open>
  The burst prediction is
  \<^verbatim>\<open>(int)(alpha * (float)(actualBurstTime) + (1.0 - alpha) * (float)(burstTime))\<close>:
  both integers are converted to single precision, the products and the sum are taken in
  double precision (the literal \<^verbatim>\<open>1.0\<close> is a double), and the cast truncates towards
  zero (\<open>truncate_to_int\<close>). A value outside the range of \<^verbatim>\<open>int\<close> has no defined
  conversion in C++; the conversion instruction of x86 then yields \<^verbatim>\<open>INT_MIN\<close>, which
  \<open>double_to_int\<close> follows. \<open>fp_round p\<close> rounds a rational to the nearest number with a significand of \<open>p\<close>
  bits, ties to the even significand, which is the rounding of IEEE 754 arithmetic: 24
  bits for \<^verbatim>\<open>float\<close>, 53 for \<^verbatim>\<open>double\<close>. \<open>fp_exponent x\<close> is the exponent of the
  leading bit of \<open>x\<close>. The exponent range is not bounded: the operands are C integers and
  \<^verbatim>\<open>alpha\<close> lies between 0 and 1, so nothing overflows or underflows. Every operation
  is rounded to its own type (no excess precision is kept between operations).

  Modelled from the spec: the constant \<^verbatim>\<open>alpha\<close> is declared in thread.h, which is not
  part of the sources at hand. It is a parameter, taken as a constant of type
  \<^verbatim>\<open>double\<close>: the value used is the parameter rounded to 53 bits. Were it a
  \<^verbatim>\<open>float\<close>, the first product would be rounded to 24 bits, which gives the same value
  whenever \<^verbatim>\<open>alpha\<close> is a power of two such as 0.5.
\<close>

definition round_half_even :: "rat \<Rightarrow> int" where
  "round_half_even q =
     (let f = floor q; d = q - of_int f
      in if d < 1/2 then f else if d > 1/2 then f + 1 else if even f then f else f + 1)"

definition fp_exponent :: "rat \<Rightarrow> int" where
  "fp_exponent x =
     (if 1 \<le> \<bar>x\<bar> then bitlen (floor \<bar>x\<bar>) - 1 else - bitlen (ceiling (1 / \<bar>x\<bar>) - 1))"

definition fp_round :: "nat \<Rightarrow> rat \<Rightarrow> rat" where
  "fp_round p x =
     (if x = 0 then 0
      else (let u = 2 powi (fp_exponent x - (int p - 1))
            in of_int (round_half_even (x / u)) * u))"

definition truncate_to_int :: "rat \<Rightarrow> int" where
  "truncate_to_int q = (if q < 0 then ceiling q else floor q)"

definition double_to_int :: "rat \<Rightarrow> int" where
  "double_to_int q =
     (let t = truncate_to_int q
      in if t < - 2147483648 \<or> 2147483647 < t then - 2147483648 else t)"

definition predictBurst :: "rat \<Rightarrow> int \<Rightarrow> int \<Rightarrow> int" where
  "predictBurst alpha actualBurstTime burst =
     (let alpha = fp_round 53 alpha
      in double_to_int
           (fp_round 53 (fp_round 53 (alpha * fp_round 24 (of_int actualBurstTime))
                         + fp_round 53 (fp_round 53 (1 - alpha) * fp_round 24 (of_int burst)))))"

definition updateBurstTime :: "rat \<Rightarrow> Kernel \<Rightarrow> tid \<Rightarrow> Kernel" where
  "updateBurstTime alpha k this =
     (let actualBurstTime = userTicks k - startTicks (threads k this)
      in k\<lparr>threads := (threads k)
            (this := (threads k this)
               \<lparr>burstTime := predictBurst alpha actualBurstTime (burstTime (threads k this))\<rparr>)\<rparr>)"

text \<open>
  \<^verbatim>\<open>Thread::Yield\<close>, called on thread \<open>this\<close>. When it switches, the result is the state
  at \<^verbatim>\<open>SWITCH\<close> inside \<^verbatim>\<open>Scheduler::Run\<close>; the closing \<^verbatim>\<open>SetLevel(oldLevel)\<close> runs
  when the thread is dispatched again. When it does not switch, the call returns with the
  interrupt level restored.
\<close>

definition Thread_Yield :: "rat \<Rightarrow> Kernel \<Rightarrow> tid \<Rightarrow> error + Kernel" where
  "Thread_Yield alpha k this =
     (let oldLevel = level k;
          k0 = k\<lparr>level := IntOff\<rparr>
      in if this \<noteq> currentThread k0 then Inl AssertionFailed
         else (case FindNextToRun k0 of
                 Inl e \<Rightarrow> Inl e
               | Inr (nextThread, k1) \<Rightarrow>
                   if nextThread \<noteq> None \<and> nextThread \<noteq> Some this
                   then (case ReadyToRun (updateBurstTime alpha k1 this) this of
                           Inl e \<Rightarrow> Inl e
                         | Inr k2 \<Rightarrow> Run k2 (the nextThread) False)
                   else Inr (k1\<lparr>level := oldLevel\<rparr>)))"

text \<open>
  \<^verbatim>\<open>Thread::Sleep\<close>. With a ready thread the result is the state at \<^verbatim>\<open>SWITCH\<close>. With
  none, the code loops in \<^verbatim>\<open>Interrupt::Idle\<close> until an interrupt readies a thread; the
  interrupt simulator is outside this model, which then returns the state in which the
  processor starts idling (the current thread is \<open>BLOCKED\<close>).
\<close>

definition Thread_Sleep :: "rat \<Rightarrow> Kernel \<Rightarrow> tid \<Rightarrow> bool \<Rightarrow> error + Kernel" where
  "Thread_Sleep alpha k this finishing =
     (if this \<noteq> currentThread k then Inl AssertionFailed
      else if level k \<noteq> IntOff then Inl AssertionFailed
      else (let k1 = updateBurstTime alpha k this;
                k2 = setStatus k1 this BLOCKED
            in case FindNextToRun k2 of
                 Inl e \<Rightarrow> Inl e
               | Inr (None, k3) \<Rightarrow> Inr k3
               | Inr (Some nextThread, k3) \<Rightarrow> Run k3 nextThread finishing))"

subsection \<open>Lock\<close>

text \<open>
  Modelled from the spec: \<^verbatim>\<open>Lock::IsHeldByCurrentThread\<close> is defined in synch.h, which is
  not part of the sources at hand; the owner of a lock is compared with the current thread.
\<close>

definition IsHeldByCurrentThread :: "Kernel \<Rightarrow> lid \<Rightarrow> bool" where
  "IsHeldByCurrentThread k l = (lockHolder (locks k l) = Some (currentThread k))"

definition DonatePriorityToLockHolder :: "nat \<Rightarrow> Kernel \<Rightarrow> lid \<Rightarrow> tid \<Rightarrow> error + Kernel" where
  "DonatePriorityToLockHolder fuel k l doner = DonatePriority fuel k doner (lockHolder (locks k l))"

definition CleanDonatedPriority :: "Kernel \<Rightarrow> lid \<Rightarrow> error + (bool \<times> Kernel)" where
  "CleanDonatedPriority k l =
     (case lockHolder (locks k l) of
        None \<Rightarrow> Inl NullPointer
      | Some holder \<Rightarrow> resetEffectivePriority k holder)"

definition setWaitQueue :: "Kernel \<Rightarrow> lid \<Rightarrow> tid list \<Rightarrow> Kernel" where
  "setWaitQueue k l q = k\<lparr>locks := (locks k)(l := (locks k l)\<lparr>waitQueue := q\<rparr>)\<rparr>"

text \<open>
  \<^verbatim>\<open>Lock::Acquire\<close> from the \<^verbatim>\<open>while\<close> test on. A thread that finds the lock taken
  donates, queues itself and sleeps: the result is then the state at its suspension, and
  the thread re-enters here when it runs again. \<open>oldLevel\<close> is the saved interrupt level.
\<close>

definition Lock_Acquire_loop ::
  "nat \<Rightarrow> rat \<Rightarrow> Kernel \<Rightarrow> lid \<Rightarrow> IntStatus \<Rightarrow> error + Kernel" where
  "Lock_Acquire_loop fuel alpha k l oldLevel =
     (let cur = currentThread k
      in if locked (locks k l) = True
         then (case DonatePriorityToLockHolder fuel k l cur of
                 Inl e \<Rightarrow> Inl e
               | Inr k1 \<Rightarrow>
                   Thread_Sleep alpha
                     (setWaitQueue k1 l (waitQueue (locks k1 l) @ [cur])) cur False)
         else Inr (k\<lparr>locks := (locks k)(l := (locks k l)\<lparr>locked := True, lockHolder := Some cur\<rparr>),
                     level := oldLevel\<rparr>))"

definition Lock_Acquire :: "nat \<Rightarrow> rat \<Rightarrow> Kernel \<Rightarrow> lid \<Rightarrow> error + Kernel" where
  "Lock_Acquire fuel alpha k l =
     (if \<not> (locked (locks k l) = False \<or> \<not> IsHeldByCurrentThread k l) then Inl AssertionFailed
      else Lock_Acquire_loop fuel alpha (k\<lparr>level := IntOff\<rparr>) l (level k))"

text \<open>The loop of \<^verbatim>\<open>Lock::Release\<close> that empties the wait queue into the ready list.\<close>

function Release_wake :: "Kernel \<Rightarrow> lid \<Rightarrow> error + Kernel" where
  "Release_wake k l =
     (case waitQueue (locks k l) of
        [] \<Rightarrow> Inr k
      | w # ws \<Rightarrow>
          (case ReadyToRun (setWaitQueue k l ws) w of
             Inl e \<Rightarrow> Inl e
           | Inr k' \<Rightarrow> Release_wake k' l))"
  by pat_completeness auto
termination
  by (relation "measure (\<lambda>(k, l). length (waitQueue (locks k l)))")
     (auto simp: ReadyToRun_def setWaitQueue_def setStatus_def Let_def split: if_splits)

declare Release_wake.simps [simp del]

text \<open>
  \<^verbatim>\<open>Lock::Release\<close>: the section with interrupts off (\<open>Lock_Release_atomic\<close>: reset the
  donation of the holder, wake the waiters, clear the owner, restore the level), then the
  yield.
\<close>

definition Lock_Release_atomic :: "Kernel \<Rightarrow> lid \<Rightarrow> error + (bool \<times> Kernel)" where
  "Lock_Release_atomic k l =
     (if locked (locks k l) \<noteq> True then Inl AssertionFailed
      else if \<not> IsHeldByCurrentThread k l then Inl AssertionFailed
      else (let oldLevel = level k
            in case CleanDonatedPriority (k\<lparr>level := IntOff\<rparr>) l of
                 Inl e \<Rightarrow> Inl e
               | Inr (didLockHolderHaveBeenDonated, k1) \<Rightarrow>
                   (case Release_wake k1 l of
                      Inl e \<Rightarrow> Inl e
                    | Inr k2 \<Rightarrow>
                        Inr (didLockHolderHaveBeenDonated,
                             k2\<lparr>locks := (locks k2)
                                   (l := (locks k2 l)\<lparr>lockHolder := None, locked := False\<rparr>),
                                 level := oldLevel\<rparr>))))"

definition Lock_Release :: "rat \<Rightarrow> Kernel \<Rightarrow> lid \<Rightarrow> error + Kernel" where
  "Lock_Release alpha k l =
     (case Lock_Release_atomic k l of
        Inl e \<Rightarrow> Inl e
      | Inr (didLockHolderHaveBeenDonated, k') \<Rightarrow>
          if IsPreemptive (scheduler k') \<and> didLockHolderHaveBeenDonated = True
          then Thread_Yield alpha k' (currentThread k')
          else Inr k')"

text \<open>
  Whether \<^verbatim>\<open>Thread::Yield\<close>, called on \<open>this\<close>, finds a thread other than the caller
  to switch to: the test \<^verbatim>\<open>nextThread != NULL && nextThread != this\<close> of its body.
\<close>

definition yieldFindsOther :: "Kernel \<Rightarrow> tid \<Rightarrow> bool" where
  "yieldFindsOther k this =
     (case FindNextToRun (k\<lparr>level := IntOff\<rparr>) of
        Inl e \<Rightarrow> False
      | Inr (None, k') \<Rightarrow> False
      | Inr (Some nextThread, k') \<Rightarrow> nextThread \<noteq> this)"

subsection \<open>Concrete kernel states\<close>

text \<open>
  A freshly booted kernel (the main thread running, nothing ready, no lock taken) and
  states derived from it, on which the results below are exercised.
\<close>

definition idleLock :: Lock where
  "idleLock = \<lparr>locked = False, lockHolder = None, waitQueue = []\<rparr>"

definition bootKernel :: "SchedulerType \<Rightarrow> bool \<Rightarrow> Kernel" where
  "bootKernel ty p =
     \<lparr>threads = (\<lambda>t. Thread_ctor ''thread'' 0 False)
                 (0 := (Thread_ctor ''main'' 0 False)\<lparr>status := RUNNING\<rparr>),
      locks = (\<lambda>l. idleLock),
      scheduler = \<lparr>schedulerType = ty, isPreemptive = p, readyList = [], sleepList = [],
                   toBeDestroyed = None\<rparr>,
      currentThread = 0, level = IntOn, userTicks = 0\<rparr>"

definition contendedKernel :: Kernel where
  "contendedKernel =
     (bootKernel Priority True)
       \<lparr>threads := (threads (bootKernel Priority True))
          (0 := (Thread_ctor ''low'' 1 False)
                  \<lparr>status := RUNNING, donatedPriority := 6, isDonated := True\<rparr>,
           1 := (Thread_ctor ''high'' 6 False)\<lparr>status := BLOCKED\<rparr>,
           2 := (Thread_ctor ''mid'' 3 False)\<lparr>status := BLOCKED\<rparr>),
        locks := (\<lambda>l. idleLock)
          (0 := \<lparr>locked = True, lockHolder = Some 0, waitQueue = [1, 2]\<rparr>)\<rparr>"

definition pairKernel :: Kernel where
  "pairKernel =
     (bootKernel RR False)
       \<lparr>threads := (threads (bootKernel RR False))
          (1 := (Thread_ctor ''other'' 0 False)\<lparr>status := READY\<rparr>),
        scheduler := (scheduler (bootKernel RR False))\<lparr>readyList := [1]\<rparr>,
        level := IntOff, userTicks := 20\<rparr>"

definition soloKernel :: Kernel where
  "soloKernel = (bootKernel RR False)\<lparr>userTicks := 20\<rparr>"


definition longBurstKernel :: Kernel where
  "longBurstKernel = (bootKernel RR False)\<lparr>level := IntOff, userTicks := 16777219\<rparr>"

section \<open>Per-thread open-file table and the Read and Write system calls (thread.cc, exception.cc)\<close>

subsection \<open>Thread::AddOpenFileEntry, RemoveOpenFileEntry, GetOpenFileEntry\<close>

text \<open>
  The member \<^verbatim>\<open>openFileTable\<close> of \<^verbatim>\<open>class Thread\<close>: an array of \<^verbatim>\<open>MaxNumUserOpenFiles\<close>
  entries, each with an \<^verbatim>\<open>OpenFile\<close> pointer and the flag \<^verbatim>\<open>inUse\<close>. The constant is
  declared in thread.h, which is not part of the sources at hand: the capacity is the
  length of the table. \<^verbatim>\<open>class OpenFile\<close> (openfile.cc) is not part of them either, so the
  type of open files is a parameter \<open>'f\<close>. The three methods touch no other member.
\<close>

record 'f UserOpenFileEntry =
  openFile :: "'f option"
  inUse :: bool

type_synonym 'f OpenFileTable = "'f UserOpenFileEntry list"

definition MaxNumUserOpenFiles :: "'f OpenFileTable \<Rightarrow> int" where
  "MaxNumUserOpenFiles tbl = int (length tbl)"

text \<open>
  Modelled from the spec: the constructor of \<^verbatim>\<open>UserOpenFileEntry\<close> (thread.h); a new
  thread has a table of free slots.
\<close>

definition emptyOpenFileTable :: "nat \<Rightarrow> 'f OpenFileTable" where
  "emptyOpenFileTable n = replicate n \<lparr>openFile = None, inUse = False\<rparr>"

function AddOpenFileEntry_loop ::
  "'f OpenFileTable \<Rightarrow> 'f option \<Rightarrow> nat \<Rightarrow> int \<times> 'f OpenFileTable" where
  "AddOpenFileEntry_loop tbl newOpenfile i =
     (if int i < MaxNumUserOpenFiles tbl
      then (if inUse (tbl ! i) = False
            then (int i, tbl[i := \<lparr>openFile = newOpenfile, inUse = True\<rparr>])
            else AddOpenFileEntry_loop tbl newOpenfile (i + 1))
      else (-1, tbl))"
  by pat_completeness auto
termination
  by (relation "measure (\<lambda>(tbl, f, i). length tbl - i)") (auto simp: MaxNumUserOpenFiles_def)

declare AddOpenFileEntry_loop.simps [simp del]

definition AddOpenFileEntry :: "'f OpenFileTable \<Rightarrow> 'f option \<Rightarrow> int \<times> 'f OpenFileTable" where
  "AddOpenFileEntry tbl newOpenfile = AddOpenFileEntry_loop tbl newOpenfile 0"

definition RemoveOpenFileEntry :: "'f OpenFileTable \<Rightarrow> int \<Rightarrow> bool \<times> 'f OpenFileTable" where
  "RemoveOpenFileEntry tbl fd =
     (if fd < 0 \<or> fd \<ge> MaxNumUserOpenFiles tbl then (False, tbl)
      else if inUse (tbl ! nat fd) = False then (False, tbl)
      else (True, tbl[nat fd := \<lparr>openFile = None, inUse = False\<rparr>]))"

definition GetOpenFileEntry :: "'f OpenFileTable \<Rightarrow> int \<Rightarrow> 'f option" where
  "GetOpenFileEntry tbl fd =
     (if fd < 0 \<or> fd \<ge> MaxNumUserOpenFiles tbl then None
      else if inUse (tbl ! nat fd) = False then None
      else if openFile (tbl ! nat fd) = None then None
      else openFile (tbl ! nat fd))"

definition threeFiles :: "nat OpenFileTable" where
  "threeFiles =
     snd (AddOpenFileEntry (snd (AddOpenFileEntry (snd (AddOpenFileEntry
       (emptyOpenFileTable 5) (Some 10))) (Some 11))) (Some 12))"

definition fiveFiles :: "nat OpenFileTable" where
  "fiveFiles = snd (AddOpenFileEntry (snd (AddOpenFileEntry threeFiles (Some 13))) (Some 14))"

subsection \<open>The machine as the system calls see it\<close>

text \<open>
  Modelled from the spec: the CPU simulator (\<^verbatim>\<open>ReadRegister\<close>, \<^verbatim>\<open>WriteRegister\<close>,
  \<^verbatim>\<open>ReadMem\<close>, \<^verbatim>\<open>WriteMem\<close> of one byte) is outside the sources at hand. A byte access
  to a user address either succeeds or reports failure; \<open>readable\<close> and \<open>writable\<close> say
  which. The register numbers of the program counters are those of machine.h.
\<close>

record Machine =
  registers :: "nat \<Rightarrow> int"
  mainMemory :: "int \<Rightarrow> 8 word"
  readable :: "int \<Rightarrow> bool"
  writable :: "int \<Rightarrow> bool"

definition PCReg :: nat where "PCReg = 34"

definition NextPCReg :: nat where "NextPCReg = 35"

definition PrevPCReg :: nat where "PrevPCReg = 36"

definition ReadRegister :: "Machine \<Rightarrow> nat \<Rightarrow> int" where
  "ReadRegister m r = registers m r"

definition WriteRegister :: "Machine \<Rightarrow> nat \<Rightarrow> int \<Rightarrow> Machine" where
  "WriteRegister m r v = m\<lparr>registers := (registers m)(r := v)\<rparr>"

definition ReadMem :: "Machine \<Rightarrow> int \<Rightarrow> 8 word option" where
  "ReadMem m addr = (if readable m addr then Some (mainMemory m addr) else None)"

definition WriteMem :: "Machine \<Rightarrow> int \<Rightarrow> 8 word \<Rightarrow> bool \<times> Machine" where
  "WriteMem m addr v =
     (if writable m addr then (True, m\<lparr>mainMemory := (mainMemory m)(addr := v)\<rparr>)
      else (False, m))"

text \<open>
  Registers and the kernel's \<^verbatim>\<open>int\<close> variables are 32-bit integers in two's complement;
  \<open>wrap_int32\<close> is the value an integer has when it is stored in one.
\<close>

definition INT_MAX :: int where "INT_MAX = 2147483647"

definition wrap_int32 :: "int \<Rightarrow> int" where
  "wrap_int32 x = (x + 2147483648) mod 4294967296 - 2147483648"

text \<open>
  \<^verbatim>\<open>AdvancePC\<close>: the sum \<^verbatim>\<open>ReadRegister(PCReg) + sizeof(int)\<close> is unsigned and is
  converted back to \<^verbatim>\<open>int\<close> when it is passed to \<^verbatim>\<open>WriteRegister\<close>.
\<close>

definition AdvancePC :: "Machine \<Rightarrow> Machine" where
  "AdvancePC m =
     (let m1 = WriteRegister m PrevPCReg (ReadRegister m PCReg);
          m2 = WriteRegister m1 PCReg (ReadRegister m1 NextPCReg)
      in WriteRegister m2 NextPCReg (wrap_int32 (ReadRegister m2 PCReg + 4)))"

subsection \<open>Copying between kernel buffers and user memory\<close>

text \<open>
  \<^verbatim>\<open>WriteCharsToUserAddrSpace\<close>: the loop from index \<open>bufSize\<close> on, then the function.
  \<open>buf\<close> holds the bytes to copy; the callers pass \<open>limit\<close> = their number.
\<close>

function WriteChars_loop :: "Machine \<Rightarrow> int \<Rightarrow> 8 word list \<Rightarrow> int \<Rightarrow> nat \<Rightarrow> int \<times> Machine" where
  "WriteChars_loop m addr buf limit bufSize =
     (if int bufSize < limit
      then (case WriteMem m (addr + int bufSize) (buf ! bufSize) of
              (False, m') \<Rightarrow> (int bufSize, m')
            | (True, m') \<Rightarrow> WriteChars_loop m' addr buf limit (bufSize + 1))
      else (int bufSize, m))"
  by pat_completeness auto
termination
  by (relation "measure (\<lambda>(m, addr, buf, limit, bufSize). nat (limit - int bufSize))") auto

declare WriteChars_loop.simps [simp del]

definition WriteCharsToUserAddrSpace ::
  "Machine \<Rightarrow> int \<Rightarrow> 8 word list \<Rightarrow> int \<Rightarrow> error + (int \<times> Machine)" where
  "WriteCharsToUserAddrSpace m addr buf limit =
     (if \<not> addr \<ge> 0 then Inl AssertionFailed
      else if limit \<le> 0 then Inr (-1, m)
      else Inr (WriteChars_loop m addr buf limit 0))"

text \<open>
  \<^verbatim>\<open>ReadStringFromUserAddrSpace\<close>. The result of \<^verbatim>\<open>ReadMem\<close> is not tested, so after a
  failed read \<^verbatim>\<open>ch\<close> keeps its previous value; it starts uninitialised, which the model
  takes as the argument \<open>ch\<close>. The loop returns the bytes stored in \<open>buf\<close>.
\<close>

function ReadString_loop ::
  "Machine \<Rightarrow> int \<Rightarrow> int \<Rightarrow> nat \<Rightarrow> int \<Rightarrow> 8 word list \<Rightarrow> 8 word list" where
  "ReadString_loop m addr limit i ch buf =
     (if addr > 0 \<and> limit > 0
      then (if limit > 0 \<and> int i \<ge> limit then buf
            else (let ch = (case ReadMem m (addr + int i) of None \<Rightarrow> ch | Some b \<Rightarrow> uint b)
                  in if ch = 0 then buf
                     else ReadString_loop m addr limit (i + 1) ch (buf @ [word_of_int ch])))
      else buf)"
  by pat_completeness auto
termination
  by (relation "measure (\<lambda>(m, addr, limit, i, ch, buf). nat (limit - int i))") auto

declare ReadString_loop.simps [simp del]

definition ReadStringFromUserAddrSpace ::
  "Machine \<Rightarrow> int \<Rightarrow> int \<Rightarrow> int \<Rightarrow> error + (int \<times> 8 word list)" where
  "ReadStringFromUserAddrSpace m addr limit ch =
     (if \<not> addr \<ge> 0 then Inl AssertionFailed
      else (let buf = ReadString_loop m addr limit 0 ch [];
                bufSize = int (length buf)
            in Inr (if addr = 0 \<or> limit \<le> 0 then -1 else bufSize, buf)))"

subsection \<open>The cases SC\_Read and SC\_Write of ExceptionHandler\<close>

text \<open>
  Modelled from the spec: \<^verbatim>\<open>OpenFile::Read\<close> and \<^verbatim>\<open>OpenFile::Write\<close> (openfile.cc) are
  parameters. \<open>ofRead f n\<close> reads up to \<open>n\<close> bytes at the seek position and returns them
  with the file after the read; the number of bytes is the method's result.
  \<open>ofWrite f buf n\<close> returns the number of bytes written and the file after the write.
  The handlers return the machine (result in register 2, program counters advanced) and
  the open-file table of the current thread.

  Both handlers allocate \<^verbatim>\<open>new char[bufSize + 1]\<close>. The size is an \<^verbatim>\<open>int\<close>: for
  \<^verbatim>\<open>bufSize = INT_MAX\<close> it wraps to a negative number, the allocation throws and the
  simulator aborts. A buffer of any other size is taken to be granted by the host.
\<close>

definition new_char_array :: "int \<Rightarrow> error + unit" where
  "new_char_array count = (if wrap_int32 count < 0 then Inl BadAlloc else Inr ())"

definition storeOpenFile :: "'f OpenFileTable \<Rightarrow> int \<Rightarrow> 'f \<Rightarrow> 'f OpenFileTable" where
  "storeOpenFile tbl fd f = tbl[nat fd := (tbl ! nat fd)\<lparr>openFile := Some f\<rparr>]"

definition ExceptionHandler_Read ::
  "('f \<Rightarrow> int \<Rightarrow> 8 word list \<times> 'f) \<Rightarrow> Machine \<Rightarrow> 'f OpenFileTable
     \<Rightarrow> error + (Machine \<times> 'f OpenFileTable)" where
  "ExceptionHandler_Read ofRead m tbl =
     (let arg1 = ReadRegister m 4;
          bufSize = ReadRegister m 5;
          userFd = ReadRegister m 6
      in case GetOpenFileEntry tbl userFd of
           None \<Rightarrow> Inr (AdvancePC (WriteRegister m 2 (-1)), tbl)
         | Some openFilePtr \<Rightarrow>
             if bufSize \<le> 0 then Inr (AdvancePC (WriteRegister m 2 (-1)), tbl)
             else (case new_char_array (bufSize + 1) of
                     Inl e \<Rightarrow> Inl e
                   | Inr u \<Rightarrow>
                       (let (buf, file') = ofRead openFilePtr bufSize;
                            bufSize = int (length buf);
                            tbl' = storeOpenFile tbl userFd file'
                        in if bufSize \<le> 0 then Inr (AdvancePC (WriteRegister m 2 (-1)), tbl')
                           else (case WriteCharsToUserAddrSpace m arg1 buf bufSize of
                                   Inl e \<Rightarrow> Inl e
                                 | Inr (numBytesRW, m') \<Rightarrow>
                                     Inr (AdvancePC (WriteRegister m' 2 numBytesRW), tbl')))))"

definition ExceptionHandler_Write ::
  "('f \<Rightarrow> 8 word list \<Rightarrow> int \<Rightarrow> int \<times> 'f) \<Rightarrow> int \<Rightarrow> Machine \<Rightarrow> 'f OpenFileTable
     \<Rightarrow> error + (Machine \<times> 'f OpenFileTable)" where
  "ExceptionHandler_Write ofWrite ch m tbl =
     (let arg1 = ReadRegister m 4;
          bufSize = ReadRegister m 5;
          userFd = ReadRegister m 6
      in case GetOpenFileEntry tbl userFd of
           None \<Rightarrow> Inr (AdvancePC (WriteRegister m 2 (-1)), tbl)
         | Some openFilePtr \<Rightarrow>
             if bufSize < 0 then Inr (AdvancePC (WriteRegister m 2 (-1)), tbl)
             else (case new_char_array (bufSize + 1) of
                     Inl e \<Rightarrow> Inl e
                   | Inr u \<Rightarrow>
                       (case ReadStringFromUserAddrSpace m arg1 bufSize ch of
                          Inl e \<Rightarrow> Inl e
                        | Inr (bufSize, buf) \<Rightarrow>
                            if bufSize \<le> 0 then Inr (AdvancePC (WriteRegister m 2 (-1)), tbl)
                            else (let (numBytesRW, file') = ofWrite openFilePtr buf bufSize
                                  in Inr (AdvancePC (WriteRegister m 2 numBytesRW),
                                          storeOpenFile tbl userFd file')))))"

definition holeTable :: "nat OpenFileTable" where
  "holeTable = snd (RemoveOpenFileEntry threeFiles 1)"

text \<open>
  A file held in memory (its bytes and a seek position) stands for \<^verbatim>\<open>OpenFile\<close> where a
  result is exercised on a concrete input.
\<close>

type_synonym MemFile = "8 word list \<times> nat"

definition memRead :: "MemFile \<Rightarrow> int \<Rightarrow> 8 word list \<times> MemFile" where
  "memRead f n =
     (let got = take (nat n) (drop (snd f) (fst f)) in (got, (fst f, snd f + length got)))"

definition memWrite :: "MemFile \<Rightarrow> 8 word list \<Rightarrow> int \<Rightarrow> int \<times> MemFile" where
  "memWrite f buf n =
     (let put = take (nat n) buf
      in (int (length put),
          (take (snd f) (fst f) @ put @ drop (snd f + length put) (fst f), snd f + length put)))"

definition userMachine :: "int \<Rightarrow> int \<Rightarrow> int \<Rightarrow> Machine" where
  "userMachine a n fd =
     \<lparr>registers = (\<lambda>r. 0)(4 := a, 5 := n, 6 := fd),
      mainMemory = (\<lambda>x. 0)(100 := 72, 101 := 105),
      readable = (\<lambda>x. True), writable = (\<lambda>x. True)\<rparr>"

definition oneFile :: "MemFile OpenFileTable" where
  "oneFile = snd (AddOpenFileEntry (emptyOpenFileTable 5) (Some ([65, 66, 67], 0)))"

definition oneFileAtEnd :: "MemFile OpenFileTable" where
  "oneFileAtEnd = snd (AddOpenFileEntry (emptyOpenFileTable 5) (Some ([65, 66, 67], 3)))"

section \<open>File headers (filehdr.cc)\<close>

subsection \<open>Disk geometry and the free-sector bitmap\<close>

text \<open>
  Modelled from the spec: the constants of disk.h and filehdr.h, which are not part of the
  sources at hand. A sector has 128 bytes, \<^verbatim>\<open>NumDirect = (SectorSize - 3 * sizeof(int)) /
  sizeof(int)\<close> and \<^verbatim>\<open>MaxFileSize = NumDirect * SectorSize\<close>.
\<close>

definition SectorSize :: int where "SectorSize = 128"

definition NumDirect :: int where "NumDirect = (SectorSize - 3 * 4) div 4"

definition MaxFileSize :: int where "MaxFileSize = NumDirect * SectorSize"

text \<open>
  Modelled from the spec: \<^verbatim>\<open>class Bitmap\<close> (lib/bitmap.cc is not part of the sources at
  hand). A bitmap is its sequence of bits; \<^verbatim>\<open>NumClear\<close> counts the clear bits and
  \<^verbatim>\<open>FindAndSet\<close> sets the first clear bit and returns its number, or returns -1 when
  every bit is set.
\<close>

type_synonym Bitmap = "bool list"

definition NumClear :: "Bitmap \<Rightarrow> int" where
  "NumClear freeMap = int (length (filter (\<lambda>b. \<not> b) freeMap))"

fun firstClear :: "Bitmap \<Rightarrow> nat \<Rightarrow> nat option" where
  "firstClear [] i = None"
| "firstClear (b # bs) i = (if b then firstClear bs (i + 1) else Some i)"

definition FindAndSet :: "Bitmap \<Rightarrow> int \<times> Bitmap" where
  "FindAndSet freeMap =
     (case firstClear freeMap 0 of
        None \<Rightarrow> (-1, freeMap)
      | Some i \<Rightarrow> (int i, freeMap[i := True]))"

text \<open>
  Modelled from the spec: the macro \<^verbatim>\<open>divRoundUp(n, s)\<close> of lib/utility.h, which is not
  part of the sources at hand: \<^verbatim>\<open>((n) / (s)) + ((((n) % (s)) > 0) ? 1 : 0)\<close>, with the
  division of C, which truncates towards zero, and its remainder.
\<close>

definition C_div :: "int \<Rightarrow> int \<Rightarrow> int" where
  "C_div a b = (if (a < 0) = (b < 0) then \<bar>a\<bar> div \<bar>b\<bar> else - (\<bar>a\<bar> div \<bar>b\<bar>))"

definition C_mod :: "int \<Rightarrow> int \<Rightarrow> int" where
  "C_mod a b = a - b * C_div a b"

definition divRoundUp :: "int \<Rightarrow> int \<Rightarrow> int" where
  "divRoundUp n s = C_div n s + (if C_mod n s > 0 then 1 else 0)"

subsection \<open>The header and its allocation\<close>

text \<open>
  \<^verbatim>\<open>class FileHeader\<close>: the three integers stored on disk, the table of data sectors, and
  the in-memory pointer to the next header of the chain.
\<close>

datatype FileHeader =
  FileHeader (numBytes: int) (numSectors: int) (dataSectors: "int list")
    (nextFileHeaderSector: int) (nextFileHeader: "FileHeader option")

definition newFileHeader :: FileHeader where
  "newFileHeader = FileHeader (-1) (-1) (replicate (nat NumDirect) 0) (-1) None"

text \<open>
  The loop of \<^verbatim>\<open>Allocate\<close> that claims one sector per entry of \<^verbatim>\<open>dataSectors\<close>, from
  index \<open>i\<close> on; \<open>False\<close> when \<^verbatim>\<open>FindAndSet\<close> gives -1. \<^verbatim>\<open>Allocate\<close> itself
  follows. \<^verbatim>\<open>NumDirect\<close> and \<^verbatim>\<open>MaxFileSize\<close> are compared as integers; the results
  below are about file sizes that are not negative.
\<close>

function Allocate_sectors ::
  "int \<Rightarrow> int list \<Rightarrow> Bitmap \<Rightarrow> nat \<Rightarrow> bool \<times> int list \<times> Bitmap" where
  "Allocate_sectors nSectors sectors freeMap i =
     (if int i < nSectors
      then (let (s, freeMap') = FindAndSet freeMap;
                sectors' = sectors[i := s]
            in if s = -1 then (False, sectors', freeMap')
               else Allocate_sectors nSectors sectors' freeMap' (i + 1))
      else (True, sectors, freeMap))"
  by pat_completeness auto
termination
  by (relation "measure (\<lambda>(n, s, f, i). nat (n - int i))") auto

declare Allocate_sectors.simps [simp del]

function Allocate :: "FileHeader \<Rightarrow> Bitmap \<Rightarrow> int \<Rightarrow> bool \<times> FileHeader \<times> Bitmap" where
  "Allocate this freeMap fileSize =
     (let numTotalSectors = divRoundUp fileSize SectorSize;
          nSectors = min numTotalSectors NumDirect;
          this1 = FileHeader fileSize nSectors (dataSectors this)
                    (nextFileHeaderSector this) (nextFileHeader this)
      in if NumClear freeMap < nSectors then (False, this1, freeMap)
         else (case Allocate_sectors nSectors (dataSectors this1) freeMap 0 of
                 (False, sectors, freeMap1) \<Rightarrow>
                   (False, FileHeader fileSize nSectors sectors
                             (nextFileHeaderSector this) (nextFileHeader this), freeMap1)
               | (True, sectors, freeMap1) \<Rightarrow>
                   if divRoundUp fileSize SectorSize > NumDirect
                   then (let (s, freeMap2) = FindAndSet freeMap1
                         in if s = -1
                            then (False, FileHeader fileSize nSectors sectors s
                                           (nextFileHeader this), freeMap2)
                            else (case Allocate newFileHeader freeMap2 (fileSize - MaxFileSize) of
                                    (r, next, freeMap3) \<Rightarrow>
                                      (r, FileHeader fileSize nSectors sectors s (Some next),
                                       freeMap3)))
                   else (True, FileHeader fileSize nSectors sectors
                                 (nextFileHeaderSector this) (nextFileHeader this), freeMap1)))"
  by pat_completeness auto
termination
  by (relation "measure (\<lambda>(h, f, n). nat n)")
     (auto simp: divRoundUp_def C_div_def C_mod_def SectorSize_def NumDirect_def MaxFileSize_def
        split: if_splits)

declare Allocate.simps [simp del]

fun FileLength :: "FileHeader \<Rightarrow> int" where
  "FileLength (FileHeader nb ns ds nx None) = nb"
| "FileLength (FileHeader nb ns ds nx (Some next)) = nb + FileLength next"

fun chainLength :: "FileHeader \<Rightarrow> nat" where
  "chainLength (FileHeader nb ns ds nx None) = 1"
| "chainLength (FileHeader nb ns ds nx (Some next)) = 1 + chainLength next"

definition formattedFreeMap :: Bitmap where
  "formattedFreeMap = [True, True] @ replicate 62 False"

subsection \<open>The header on disk\<close>

text \<open>
  An \<^verbatim>\<open>int\<close> occupies four bytes in the byte order of the host (least significant byte
  first on the x86 the simulator runs on), in two's complement.
\<close>

definition int_bytes :: "int \<Rightarrow> 8 word list" where
  "int_bytes x =
     [word_of_int x, word_of_int (x div 256), word_of_int (x div 65536),
      word_of_int (x div 16777216)]"

definition bytes_int :: "8 word list \<Rightarrow> int" where
  "bytes_int bs =
     (let u = foldr (\<lambda>b acc. uint b + 256 * acc) (take 4 bs) 0
      in if u \<ge> 2147483648 then u - 4294967296 else u)"

text \<open>\<^verbatim>\<open>bcopy(src, buf + offset, length src)\<close> into a buffer that has the room.\<close>

definition bcopy_into :: "8 word list \<Rightarrow> nat \<Rightarrow> 8 word list \<Rightarrow> 8 word list" where
  "bcopy_into buf offset src = take offset buf @ src @ drop (offset + length src) buf"

text \<open>\<open>count\<close> integers read from consecutive bytes.\<close>

fun ints_from :: "nat \<Rightarrow> 8 word list \<Rightarrow> int list" where
  "ints_from 0 bs = []"
| "ints_from (Suc count) bs = bytes_int (take 4 bs) # ints_from count (drop 4 bs)"

text \<open>
  Modelled from the spec: the synchronous disk (\<^verbatim>\<open>ReadSector\<close>, \<^verbatim>\<open>WriteSector\<close>) is
  outside the sources at hand; it maps a sector number to the bytes of the sector.
\<close>

type_synonym Disk = "int \<Rightarrow> 8 word list"

text \<open>The buffer that \<^verbatim>\<open>FileHeader::WriteBack\<close> fills before it writes the sector.\<close>

definition WriteBack_buf :: "FileHeader \<Rightarrow> 8 word list" where
  "WriteBack_buf this =
     (let buf = replicate (nat SectorSize) 0;
          buf = bcopy_into buf 0 (int_bytes (numBytes this));
          buf = bcopy_into buf 4 (int_bytes (numSectors this));
          buf = bcopy_into buf 8 (int_bytes (nextFileHeaderSector this))
      in bcopy_into buf 12
           (concat (map int_bytes (take (nat (numSectors this)) (dataSectors this)))))"

text \<open>
  \<^verbatim>\<open>FileHeader::WriteBack\<close>. Copying \<^verbatim>\<open>numSectors * sizeof(int)\<close> bytes with a negative
  \<^verbatim>\<open>numSectors\<close>, or with more than \<^verbatim>\<open>NumDirect\<close>, runs outside the buffer; a header that
  names a next sector without having a next header dereferences \<^verbatim>\<open>NULL\<close>.
\<close>

fun WriteBack :: "Disk \<Rightarrow> FileHeader \<Rightarrow> int \<Rightarrow> error + Disk" where
  "WriteBack disk (FileHeader nb ns ds nx nh) sector =
     (if ns < 0 \<or> ns > NumDirect then Inl BufferOverrun
      else (let disk' = disk(sector := WriteBack_buf (FileHeader nb ns ds nx nh))
            in if nx \<noteq> -1
               then (case nh of
                       None \<Rightarrow> Inl NullPointer
                     | Some next \<Rightarrow> WriteBack disk' next nx)
               else Inr disk'))"

text \<open>
  \<^verbatim>\<open>FileHeader::FetchFrom\<close>. It follows the sector numbers found on disk, which need not
  end: the result is \<open>None\<close> when it does not return.
\<close>

partial_function (option) FetchFrom :: "Disk \<Rightarrow> FileHeader \<Rightarrow> int \<Rightarrow> (error + FileHeader) option"
where
  "FetchFrom disk this sector =
     (let buf = disk sector;
          nb = bytes_int (take 4 buf);
          ns = bytes_int (take 4 (drop 4 buf));
          nx = bytes_int (take 4 (drop 8 buf))
      in if ns < 0 \<or> ns > NumDirect then Some (Inl BufferOverrun)
         else (let ds = ints_from (nat ns) (drop 12 buf) @ drop (nat ns) (dataSectors this)
               in if nx \<noteq> -1
                  then Option.bind (FetchFrom disk newFileHeader nx)
                         (\<lambda>r. case r of
                                 Inl e \<Rightarrow> Some (Inl e)
                               | Inr next \<Rightarrow> Some (Inr (FileHeader nb ns ds nx (Some next))))
                  else Some (Inr (FileHeader nb ns ds nx (nextFileHeader this)))))"

text \<open>
  A header as \<^verbatim>\<open>Allocate\<close> leaves it: the stored integers are C \<^verbatim>\<open>int\<close>s, the table
  has \<^verbatim>\<open>NumDirect\<close> entries of which \<^verbatim>\<open>numSectors\<close> are used, and the header has a
  successor exactly when it names a next sector.
\<close>

definition is_int32 :: "int \<Rightarrow> bool" where
  "is_int32 x = (-2147483648 \<le> x \<and> x < 2147483648)"

fun wellFormed :: "FileHeader \<Rightarrow> bool" where
  "wellFormed (FileHeader nb ns ds nx None) =
     (is_int32 nb \<and> 0 \<le> ns \<and> ns \<le> NumDirect \<and> length ds = nat NumDirect
      \<and> list_all is_int32 (take (nat ns) ds) \<and> nx = -1)"
| "wellFormed (FileHeader nb ns ds nx (Some next)) =
     (is_int32 nb \<and> 0 \<le> ns \<and> ns \<le> NumDirect \<and> length ds = nat NumDirect
      \<and> list_all is_int32 (take (nat ns) ds) \<and> is_int32 nx \<and> nx \<noteq> -1 \<and> wellFormed next)"

fun chainSectors :: "FileHeader \<Rightarrow> int list" where
  "chainSectors (FileHeader nb ns ds nx None) = []"
| "chainSectors (FileHeader nb ns ds nx (Some next)) = nx # chainSectors next"

text \<open>
  Two headers agree on what is stored: \<^verbatim>\<open>numBytes\<close>, \<^verbatim>\<open>numSectors\<close>,
  \<^verbatim>\<open>nextFileHeaderSector\<close>, the first \<^verbatim>\<open>numSectors\<close> data sectors, and the same for
  their successors to the end of the chain.
\<close>

fun sameStored :: "FileHeader \<Rightarrow> FileHeader \<Rightarrow> bool" where
  "sameStored (FileHeader nb ns ds nx nh) (FileHeader nb' ns' ds' nx' nh') =
     (nb = nb' \<and> ns = ns' \<and> nx = nx' \<and> take (nat ns) ds = take (nat ns) ds'
      \<and> (case (nh, nh') of
            (None, None) \<Rightarrow> True
          | (Some h, Some h') \<Rightarrow> sameStored h h'
          | _ \<Rightarrow> False))"

fun storedForm :: "FileHeader \<Rightarrow> FileHeader" where
  "storedForm (FileHeader nb ns ds nx None) =
     FileHeader nb ns (take (nat ns) ds @ replicate (nat NumDirect - nat ns) 0) nx None"
| "storedForm (FileHeader nb ns ds nx (Some next)) =
     FileHeader nb ns (take (nat ns) ds @ replicate (nat NumDirect - nat ns) 0) nx
       (Some (storedForm next))"

fun chainHeaders :: "FileHeader \<Rightarrow> FileHeader list" where
  "chainHeaders (FileHeader nb ns ds nx None) = [FileHeader nb ns ds nx None]"
| "chainHeaders (FileHeader nb ns ds nx (Some next)) =
     FileHeader nb ns ds nx (Some next) # chainHeaders next"

text \<open>
  The sector of a header as the specification lays it out: \<^verbatim>\<open>numBytes\<close>,
  \<^verbatim>\<open>numSectors\<close>, \<^verbatim>\<open>nextHeaderSector\<close>, then the data sectors in use, four bytes
  each, and zero bytes to the end of the sector.
\<close>

definition sectorLayout :: "FileHeader \<Rightarrow> 8 word list" where
  "sectorLayout h =
     int_bytes (numBytes h) @ int_bytes (numSectors h) @ int_bytes (nextFileHeaderSector h)
       @ concat (map int_bytes (take (nat (numSectors h)) (dataSectors h)))
       @ replicate (nat SectorSize - 12 - 4 * nat (numSectors h)) 0"

definition chainedHeader :: FileHeader where
  "chainedHeader = fst (snd (Allocate newFileHeader formattedFreeMap (MaxFileSize + 100)))"

definition blankDisk :: Disk where
  "blankDisk = (\<lambda>s. replicate (nat SectorSize) 0)"


text \<open>What a donation leaves alone: base priorities, the scheduling policy, the level.\<close>

definition donationFrame :: "Kernel \<Rightarrow> Kernel \<Rightarrow> bool" where
  "donationFrame k k' =
     ((\<forall>t. priority (threads k' t) = priority (threads k t))
      \<and> schedulerType (scheduler k') = schedulerType (scheduler k)
      \<and> isPreemptive (scheduler k') = isPreemptive (scheduler k)
      \<and> level k' = level k)"


text \<open>\<^verbatim>\<open>Thread::setDesiredLock\<close>, which no code of the repository calls.\<close>

definition setDesiredLock :: "Kernel \<Rightarrow> tid \<Rightarrow> lid \<Rightarrow> error + Kernel" where
  "setDesiredLock k this l =
     (if level k \<noteq> IntOff then Inl AssertionFailed
      else Inr (k\<lparr>threads := (threads k)(this := (threads k this)\<lparr>desiredLock := Some l\<rparr>)\<rparr>))"




subsection \<open>Reachable kernel states\<close>




text \<open>Calls that leave every thread's priority members and the scheduling policy alone.\<close>

definition samePriorities :: "Kernel \<Rightarrow> Kernel \<Rightarrow> bool" where
  "samePriorities k k' =
     ((\<forall>t. priority (threads k' t) = priority (threads k t)
           \<and> donatedPriority (threads k' t) = donatedPriority (threads k t)
           \<and> isDonated (threads k' t) = isDonated (threads k t))
      \<and> schedulerType (scheduler k') = schedulerType (scheduler k))"

text \<open>
  Three threads under preemptive priority scheduling: 0 (base priority 1) holds lock 0
  and is ready, 1 (priority 3) holds lock 1 and runs, 2 (priority 6) is not started yet.
\<close>

definition chainKernel :: Kernel where
  "chainKernel =
     (bootKernel Priority True)
       \<lparr>threads := (threads (bootKernel Priority True))
          (0 := (Thread_ctor ''low'' 1 False)\<lparr>status := READY\<rparr>,
           1 := (Thread_ctor ''mid'' 3 False)\<lparr>status := RUNNING\<rparr>,
           2 := Thread_ctor ''high'' 6 False),
        locks := (\<lambda>l. idleLock)
          (0 := \<lparr>locked = True, lockHolder = Some 0, waitQueue = []\<rparr>,
           1 := \<lparr>locked = True, lockHolder = Some 1, waitQueue = []\<rparr>),
        scheduler := (scheduler (bootKernel Priority True))\<lparr>readyList := [0]\<rparr>,
        currentThread := 1\<rparr>"

text \<open>
  Thread 1 calls \<^verbatim>\<open>Acquire\<close> on lock 0 and blocks; \<open>mark\<close> stands for what the blocked
  thread records about the lock it waits for; thread 2 is made ready and the running thread
  yields to it, as at the end of \<^verbatim>\<open>Thread::Fork\<close>; thread 2 calls \<^verbatim>\<open>Acquire\<close> on lock 1.
\<close>

definition nestedAcquire :: "(Kernel \<Rightarrow> error + Kernel) \<Rightarrow> error + Kernel" where
  "nestedAcquire mark =
     (case Lock_Acquire 8 (1/2) chainKernel 0 of
        Inl e \<Rightarrow> Inl e
      | Inr k1 \<Rightarrow>
          (case mark k1 of
             Inl e \<Rightarrow> Inl e
           | Inr k2 \<Rightarrow>
               (case ReadyToRun k2 2 of
                  Inl e \<Rightarrow> Inl e
                | Inr k3 \<Rightarrow>
                    (case Thread_Yield (1/2) k3 (currentThread k3) of
                       Inl e \<Rightarrow> Inl e
                     | Inr k4 \<Rightarrow> Lock_Acquire 8 (1/2) k4 1))))"

text \<open>
  The states this run goes through, written out. \<open>blockedKernel d\<close>: thread 1 sleeps in
  the wait queue of lock 0 with \<^verbatim>\<open>desiredLock\<close> = \<open>d\<close>, thread 0 runs with the donated
  priority 3. \<open>waitingKernel d\<close>: the same with thread 2 running and thread 0 ready.
\<close>

definition blockedKernel :: "lid option \<Rightarrow> Kernel" where
  "blockedKernel d =
     chainKernel
       \<lparr>threads := (threads chainKernel)
          (0 := (threads chainKernel 0)
                  \<lparr>status := RUNNING, donatedPriority := 3, isDonated := True\<rparr>,
           1 := (threads chainKernel 1)\<lparr>status := BLOCKED, burstTime := 5, desiredLock := d\<rparr>),
        locks := (locks chainKernel)
          (0 := \<lparr>locked = True, lockHolder = Some 0, waitQueue = [1]\<rparr>),
        scheduler := (scheduler chainKernel)\<lparr>readyList := []\<rparr>,
        currentThread := 0, level := IntOff\<rparr>"

definition waitingKernel :: "lid option \<Rightarrow> Kernel" where
  "waitingKernel d =
     (blockedKernel d)
       \<lparr>threads := (threads (blockedKernel d))
          (0 := (threads (blockedKernel d) 0)\<lparr>status := READY, burstTime := 5\<rparr>,
           2 := (threads (blockedKernel d) 2)\<lparr>status := RUNNING\<rparr>),
        scheduler := (scheduler (blockedKernel d))\<lparr>readyList := [0]\<rparr>,
        currentThread := 2\<rparr>"

text \<open>Sectors claimed from the map: clear before, set after, and each claimed once.\<close>

definition claimed :: "Bitmap \<Rightarrow> Bitmap \<Rightarrow> int list \<Rightarrow> bool" where
  "claimed freeMap freeMap' ss =
     (distinct ss \<and> length freeMap' = length freeMap
      \<and> (\<forall>s \<in> set ss. 0 \<le> s \<and> nat s < length freeMap \<and> \<not> freeMap ! nat s \<and> freeMap' ! nat s)
      \<and> (\<forall>i < length freeMap. freeMap ! i \<longrightarrow> freeMap' ! i))"

fun allSectors :: "FileHeader \<Rightarrow> int list" where
  "allSectors (FileHeader nb ns ds nx None) = take (nat ns) ds"
| "allSectors (FileHeader nb ns ds nx (Some next)) = take (nat ns) ds @ nx # allSectors next"

section \<open>Results\<close>

text \<open>
  C10. \<^verbatim>\<open>Thread::setPriority\<close> clamps its argument into \<open>0..7\<close> (a negative value
  becomes 0, a value above 7 becomes 7, anything else is kept) and never rejects it; the
  constructor goes through it, so a constructed thread's base priority lies in \<open>0..7\<close>
  whatever priority argument it is given.
\<close>

theorem setPriority_clamps:
  "priority (snd (setPriority t p)) = (if p < 0 then 0 else if p > 7 then 7 else p)
   \<and> 0 \<le> priority (snd (setPriority t p)) \<and> priority (snd (setPriority t p)) \<le> 7
   \<and> fst (setPriority t p) = priority t
   \<and> 0 \<le> priority (Thread_ctor n p j) \<and> priority (Thread_ctor n p j) \<le> 7
   \<and> priority (Thread_ctor n p j) = (if p < 0 then 0 else if p > 7 then 7 else p)"
  by (simp add: setPriority_def Thread_ctor_def Let_def)

text \<open>
  C2 (amended statement). Constructing a \<^verbatim>\<open>Scheduler\<close> with \<^verbatim>\<open>isPreemptive = TRUE\<close> and type
  FCFS is a fatal assertion; every other combination succeeds, and \<^verbatim>\<open>IsPreemptive()\<close>
  then returns the parameter that was passed: the closing \<^verbatim>\<open>isPreemptive = FALSE\<close>
  assigns the constructor's parameter, which hides the member, and leaves the member alone.
\<close>

theorem Scheduler_ctor_keeps_parameter:
  "map_sum id IsPreemptive (Scheduler_ctor ty p) =
     (if p \<and> ty = FCFS then Inl AssertionFailed else Inr p)"
  by (simp add: Scheduler_ctor_def IsPreemptive_def Let_def)

text \<open>
  C2 (counterexample). The original statement fails: a scheduler constructed with type
  Priority and \<^verbatim>\<open>isPreemptive = TRUE\<close> answers \<open>True\<close> to \<^verbatim>\<open>IsPreemptive()\<close>.
\<close>

theorem Scheduler_ctor_preemptive_counterexample:
  "map_sum id IsPreemptive (Scheduler_ctor Priority True) = Inr True"
  by (simp add: Scheduler_ctor_def IsPreemptive_def Let_def)

subsection \<open>Frame lemmas for the scheduler operations\<close>

lemma FindNextToRun_total:
  "level k = IntOff \<Longrightarrow> \<exists>n k'. FindNextToRun k = Inr (n, k') \<and> threads k' = threads k \<and> level k' = IntOff
     \<and> currentThread k' = currentThread k \<and> userTicks k' = userTicks k \<and> locks k' = locks k
     \<and> toBeDestroyed (scheduler k') = toBeDestroyed (scheduler k)"
  by (simp add: FindNextToRun_def RemoveFront_def Let_def)

lemma ReadyToRun_total:
  "level k = IntOff \<Longrightarrow> \<exists>k'. ReadyToRun k t = Inr k' \<and> level k' = IntOff
     \<and> currentThread k' = currentThread k \<and> userTicks k' = userTicks k \<and> locks k' = locks k
     \<and> threads k' = (threads k)(t := (threads k t)\<lparr>status := READY\<rparr>)
     \<and> toBeDestroyed (scheduler k') = toBeDestroyed (scheduler k)"
  by (simp add: ReadyToRun_def setStatus_def Let_def)

lemma Run_total:
  "level k = IntOff \<Longrightarrow> (fin \<longrightarrow> toBeDestroyed (scheduler k) = None) \<Longrightarrow>
    \<exists>k'. Run k n fin = Inr k' \<and> burstTime (threads k' t) = burstTime (threads k t)
       \<and> currentThread k' = n"
  by (auto simp add: Run_def setStatus_def Let_def)

lemma SortedList_Insert_set: "set (SortedList_Insert cmp x xs) = insert x (set xs)"
  by (induction xs) auto

lemma ReadyToRun_sched:
  "level k = IntOff \<Longrightarrow> \<exists>k'. ReadyToRun k t = Inr k'
     \<and> set (readyList (scheduler k')) = insert t (set (readyList (scheduler k)))
     \<and> isPreemptive (scheduler k') = isPreemptive (scheduler k)
     \<and> schedulerType (scheduler k') = schedulerType (scheduler k)"
  by (simp add: ReadyToRun_def setStatus_def Let_def SortedList_Insert_set)

lemma set_remove1_insert: "x \<in> set xs \<Longrightarrow> insert x (set (remove1 x xs)) = set xs"
  by (induction xs) auto

lemma UpdateReadyList_total:
  "level k = IntOff \<Longrightarrow> \<exists>b k'. UpdateReadyList k t = Inr (b, k') \<and> threads k' = threads k
     \<and> locks k' = locks k \<and> level k' = IntOff \<and> currentThread k' = currentThread k
     \<and> userTicks k' = userTicks k
     \<and> set (readyList (scheduler k')) = set (readyList (scheduler k))
     \<and> isPreemptive (scheduler k') = isPreemptive (scheduler k)
     \<and> schedulerType (scheduler k') = schedulerType (scheduler k)"
  by (auto simp add: UpdateReadyList_def IsInList_def Let_def SortedList_Insert_set set_remove1_insert
        simp del: set_remove1_eq)

lemma resetEffectivePriority_total:
  assumes "level k = IntOff"
  shows "\<exists>k'. resetEffectivePriority k t = Inr (isDonated (threads k t), k')
     \<and> threads k' = (if isDonated (threads k t)
                      then (threads k)(t := (threads k t)\<lparr>isDonated := False\<rparr>) else threads k)
     \<and> locks k' = locks k \<and> level k' = IntOff \<and> currentThread k' = currentThread k
     \<and> userTicks k' = userTicks k
     \<and> set (readyList (scheduler k')) = set (readyList (scheduler k))
     \<and> isPreemptive (scheduler k') = isPreemptive (scheduler k)
     \<and> schedulerType (scheduler k') = schedulerType (scheduler k)"
proof (cases "isDonated (threads k t)")
  case False
  then show ?thesis using assms by (simp add: resetEffectivePriority_def)
next
  case True
  let ?k1 = "k\<lparr>threads := (threads k)(t := (threads k t)\<lparr>isDonated := False\<rparr>)\<rparr>"
  have "level ?k1 = IntOff" using assms by simp
  from UpdateReadyList_total [OF this, of t] obtain b k' where
    "UpdateReadyList ?k1 t = Inr (b, k')" "threads k' = threads ?k1" "locks k' = locks ?k1"
    "level k' = IntOff" "currentThread k' = currentThread ?k1" "userTicks k' = userTicks ?k1"
    "set (readyList (scheduler k')) = set (readyList (scheduler ?k1))"
    "isPreemptive (scheduler k') = isPreemptive (scheduler ?k1)"
    "schedulerType (scheduler k') = schedulerType (scheduler ?k1)"
    by blast
  then show ?thesis using assms True by (simp add: resetEffectivePriority_def)
qed

lemma Release_wake_total:
  assumes "level k = IntOff"
  shows "\<exists>k'. Release_wake k l = Inr k' \<and> waitQueue (locks k' l) = []
     \<and> locked (locks k' l) = locked (locks k l) \<and> lockHolder (locks k' l) = lockHolder (locks k l)
     \<and> (\<forall>l'. l' \<noteq> l \<longrightarrow> locks k' l' = locks k l')
     \<and> level k' = IntOff \<and> currentThread k' = currentThread k \<and> userTicks k' = userTicks k
     \<and> set (readyList (scheduler k')) = set (readyList (scheduler k)) \<union> set (waitQueue (locks k l))
     \<and> (\<forall>t. threads k' t = (if t \<in> set (waitQueue (locks k l))
                               then (threads k t)\<lparr>status := READY\<rparr> else threads k t))
     \<and> isPreemptive (scheduler k') = isPreemptive (scheduler k)
     \<and> schedulerType (scheduler k') = schedulerType (scheduler k)"
  using assms
proof (induction q \<equiv> "waitQueue (locks k l)" arbitrary: k)
  case Nil
  then show ?case by (simp add: Release_wake.simps [of k l])
next
  case (Cons w ws)
  let ?k0 = "setWaitQueue k l ws"
  have l0: "level ?k0 = IntOff" using Cons.prems by (simp add: setWaitQueue_def)
  from ReadyToRun_total [OF l0, of w] ReadyToRun_sched [OF l0, of w] obtain k1 where
    r: "ReadyToRun ?k0 w = Inr k1" and l1: "level k1 = IntOff"
    and c1: "currentThread k1 = currentThread ?k0" and u1: "userTicks k1 = userTicks ?k0"
    and lk1: "locks k1 = locks ?k0"
    and t1: "threads k1 = (threads ?k0)(w := (threads ?k0 w)\<lparr>status := READY\<rparr>)"
    and s1: "set (readyList (scheduler k1)) = insert w (set (readyList (scheduler ?k0)))"
    and p1: "isPreemptive (scheduler k1) = isPreemptive (scheduler ?k0)"
    and y1: "schedulerType (scheduler k1) = schedulerType (scheduler ?k0)"
    by auto
  have q1: "ws = waitQueue (locks k1 l)" using lk1 by (simp add: setWaitQueue_def)
  from Cons.hyps(1) [OF q1 l1] obtain k' where
    ih: "Release_wake k1 l = Inr k'" "waitQueue (locks k' l) = []"
     "locked (locks k' l) = locked (locks k1 l)" "lockHolder (locks k' l) = lockHolder (locks k1 l)"
     "\<forall>l'. l' \<noteq> l \<longrightarrow> locks k' l' = locks k1 l'"
     "level k' = IntOff" "currentThread k' = currentThread k1" "userTicks k' = userTicks k1"
     "set (readyList (scheduler k')) = set (readyList (scheduler k1)) \<union> set (waitQueue (locks k1 l))"
     "\<forall>t. threads k' t = (if t \<in> set (waitQueue (locks k1 l))
                               then (threads k1 t)\<lparr>status := READY\<rparr> else threads k1 t)"
     "isPreemptive (scheduler k') = isPreemptive (scheduler k1)"
     "schedulerType (scheduler k') = schedulerType (scheduler k1)"
    by blast
  have e: "Release_wake k l = Inr k'"
    using Cons.hyps(2) [symmetric] r ih(1) by (simp add: Release_wake.simps [of k l])
  show ?case
    using e ih(2-) Cons.hyps(2) [symmetric] q1 [symmetric] lk1 c1 u1 t1 s1 p1 y1
    by (auto simp add: setWaitQueue_def)
qed

lemma Thread_Sleep_burst:
  assumes "this = currentThread k" "level k = IntOff"
    and "finishing \<longrightarrow> toBeDestroyed (scheduler k) = None"
  shows "\<exists>k'. Thread_Sleep alpha k this finishing = Inr k' \<and>
           burstTime (threads k' this) =
             predictBurst alpha (userTicks k - startTicks (threads k this)) (burstTime (threads k this))"
proof -
  let ?k2 = "setStatus (updateBurstTime alpha k this) this BLOCKED"
  have l2: "level ?k2 = IntOff" and t2: "toBeDestroyed (scheduler ?k2) = toBeDestroyed (scheduler k)"
    and b2: "burstTime (threads ?k2 this) =
       predictBurst alpha (userTicks k - startTicks (threads k this)) (burstTime (threads k this))"
    using assms by (simp_all add: setStatus_def updateBurstTime_def Let_def)
  from FindNextToRun_total [OF l2] obtain n k3 where
    f: "FindNextToRun ?k2 = Inr (n, k3)" and th: "threads k3 = threads ?k2"
    and l3: "level k3 = IntOff" and t3: "toBeDestroyed (scheduler k3) = toBeDestroyed (scheduler ?k2)"
    by blast
  show ?thesis
  proof (cases n)
    case None
    then show ?thesis using assms f th b2 by (simp add: Thread_Sleep_def Let_def)
  next
    case (Some nx)
    have "finishing \<longrightarrow> toBeDestroyed (scheduler k3) = None" using assms t2 t3 by simp
    from Run_total [OF l3 this, of nx this] obtain k' where
      "Run k3 nx finishing = Inr k'" "burstTime (threads k' this) = burstTime (threads k3 this)"
      by blast
    then show ?thesis using assms f th b2 Some by (simp add: Thread_Sleep_def Let_def)
  qed
qed

lemma Thread_Yield_burst:
  assumes "this = currentThread k"
  shows "\<exists>k'. Thread_Yield alpha k this = Inr k' \<and>
           burstTime (threads k' this) =
             (if yieldFindsOther k this
              then predictBurst alpha (userTicks k - startTicks (threads k this)) (burstTime (threads k this))
              else burstTime (threads k this))"
proof -
  let ?k0 = "k\<lparr>level := IntOff\<rparr>"
  have l0: "level ?k0 = IntOff" by simp
  from FindNextToRun_total [OF l0] obtain n k1 where
    f: "FindNextToRun ?k0 = Inr (n, k1)" and th: "threads k1 = threads k"
    and l1: "level k1 = IntOff" and u1: "userTicks k1 = userTicks k"
    by auto
  show ?thesis
  proof (cases "n \<noteq> None \<and> n \<noteq> Some this")
    case False
    then have "\<not> yieldFindsOther k this" using f by (auto simp: yieldFindsOther_def)
    then show ?thesis using False f th assms by (auto simp add: Thread_Yield_def Let_def)
  next
    case True
    then obtain nx where n: "n = Some nx" "nx \<noteq> this" by auto
    then have y: "yieldFindsOther k this" using f by (simp add: yieldFindsOther_def)
    let ?k1b = "updateBurstTime alpha k1 this"
    have lb: "level ?k1b = IntOff" using l1 by (simp add: updateBurstTime_def Let_def)
    from ReadyToRun_total [OF lb, of this] obtain k2 where
      r: "ReadyToRun ?k1b this = Inr k2" and l2: "level k2 = IntOff"
      and t2: "threads k2 = (threads ?k1b)(this := (threads ?k1b this)\<lparr>status := READY\<rparr>)"
      by blast
    have b2: "burstTime (threads k2 this) =
       predictBurst alpha (userTicks k - startTicks (threads k this)) (burstTime (threads k this))"
      using t2 th u1 by (simp add: updateBurstTime_def Let_def)
    from Run_total [OF l2, of False nx this] obtain k' where
      "Run k2 nx False = Inr k'" "burstTime (threads k' this) = burstTime (threads k2 this)"
      by auto
    then show ?thesis using assms f n y r b2 by (simp add: Thread_Yield_def Let_def)
  qed
qed

lemma FindNextToRun_ready:
  "level k = IntOff \<Longrightarrow> \<exists>n k'. FindNextToRun k = Inr (n, k') \<and> threads k' = threads k
     \<and> level k' = IntOff \<and> currentThread k' = currentThread k \<and> locks k' = locks k
     \<and> set (readyList (scheduler k)) \<subseteq> set_option n \<union> set (readyList (scheduler k'))"
  by (cases "readyList (scheduler k)") (auto simp add: FindNextToRun_def RemoveFront_def Let_def)

lemma Run_frame:
  "level k = IntOff \<Longrightarrow> \<exists>k'. Run k n False = Inr k' \<and> currentThread k' = n
     \<and> locks k' = locks k \<and> readyList (scheduler k') = readyList (scheduler k)
     \<and> (\<forall>t. isDonated (threads k' t) = isDonated (threads k t))"
  by (simp add: Run_def setStatus_def Let_def)

lemma Thread_Yield_frame:
  assumes "this = currentThread k"
  shows "\<exists>k'. Thread_Yield alpha k this = Inr k' \<and> locks k' = locks k
     \<and> (\<forall>t. isDonated (threads k' t) = isDonated (threads k t))
     \<and> set (readyList (scheduler k)) \<subseteq> insert (currentThread k') (set (readyList (scheduler k')))"
proof -
  let ?k0 = "k\<lparr>level := IntOff\<rparr>"
  have l0: "level ?k0 = IntOff" by simp
  from FindNextToRun_ready [OF l0] obtain n k1 where
    f: "FindNextToRun ?k0 = Inr (n, k1)" and th: "threads k1 = threads k"
    and l1: "level k1 = IntOff" and c1: "currentThread k1 = currentThread k"
    and lk1: "locks k1 = locks k"
    and s1: "set (readyList (scheduler k)) \<subseteq> set_option n \<union> set (readyList (scheduler k1))"
    by auto
  show ?thesis
  proof (cases "n \<noteq> None \<and> n \<noteq> Some this")
    case False
    then have "set_option n \<subseteq> {this}" by auto
    then have "set (readyList (scheduler k)) \<subseteq> insert this (set (readyList (scheduler k1)))"
      using s1 by auto
    then show ?thesis using False f th assms lk1 c1 by (auto simp add: Thread_Yield_def Let_def)
  next
    case True
    then obtain nx where n: "n = Some nx" "nx \<noteq> this" by auto
    let ?k1b = "updateBurstTime alpha k1 this"
    have lb: "level ?k1b = IntOff" using l1 by (simp add: updateBurstTime_def Let_def)
    from ReadyToRun_total [OF lb, of this] ReadyToRun_sched [OF lb, of this] obtain k2 where
      r: "ReadyToRun ?k1b this = Inr k2" and l2: "level k2 = IntOff"
      and t2: "threads k2 = (threads ?k1b)(this := (threads ?k1b this)\<lparr>status := READY\<rparr>)"
      and lk2: "locks k2 = locks ?k1b"
      and s2: "set (readyList (scheduler k2)) = insert this (set (readyList (scheduler ?k1b)))"
      by auto
    from Run_frame [OF l2, of nx] obtain k' where
      ru: "Run k2 nx False = Inr k'" and c': "currentThread k' = nx" and lk': "locks k' = locks k2"
      and s': "readyList (scheduler k') = readyList (scheduler k2)"
      and d': "\<forall>t. isDonated (threads k' t) = isDonated (threads k2 t)"
      by blast
    have e: "Thread_Yield alpha k this = Inr k'"
      using assms f n r ru by (simp add: Thread_Yield_def Let_def)
    have "locks k' = locks k" using lk' lk2 lk1 by (simp add: updateBurstTime_def Let_def)
    moreover have "\<forall>t. isDonated (threads k' t) = isDonated (threads k t)"
      using d' t2 th by (simp add: updateBurstTime_def Let_def)
    moreover have "set (readyList (scheduler k)) \<subseteq> insert (currentThread k') (set (readyList (scheduler k')))"
      using s1 s2 s' c' n by (auto simp add: updateBurstTime_def Let_def)
    ultimately show ?thesis using e by blast
  qed
qed

lemma Lock_Release_atomic_total:
  assumes "locked (locks k l) = True" and "lockHolder (locks k l) = Some (currentThread k)"
  shows "\<exists>k1. Lock_Release_atomic k l = Inr (isDonated (threads k (currentThread k)), k1)
           \<and> waitQueue (locks k1 l) = [] \<and> locked (locks k1 l) = False
           \<and> lockHolder (locks k1 l) = None
           \<and> (\<forall>l'. l' \<noteq> l \<longrightarrow> locks k1 l' = locks k l')
           \<and> isDonated (threads k1 (currentThread k)) = False
           \<and> set (readyList (scheduler k1)) =
               set (readyList (scheduler k)) \<union> set (waitQueue (locks k l))
           \<and> (\<forall>w \<in> set (waitQueue (locks k l)). status (threads k1 w) = READY)
           \<and> level k1 = level k \<and> currentThread k1 = currentThread k
           \<and> isPreemptive (scheduler k1) = isPreemptive (scheduler k)"
proof -
  let ?cur = "currentThread k"
  let ?k0 = "k\<lparr>level := IntOff\<rparr>"
  have l0: "level ?k0 = IntOff" by simp
  from resetEffectivePriority_total [OF l0, of ?cur] obtain ka where
    a: "resetEffectivePriority ?k0 ?cur = Inr (isDonated (threads k ?cur), ka)"
    and ta: "threads ka = (if isDonated (threads k ?cur)
                then (threads k)(?cur := (threads k ?cur)\<lparr>isDonated := False\<rparr>) else threads k)"
    and lka: "locks ka = locks k" and la: "level ka = IntOff"
    and ca: "currentThread ka = ?cur"
    and sa: "set (readyList (scheduler ka)) = set (readyList (scheduler k))"
    and pa: "isPreemptive (scheduler ka) = isPreemptive (scheduler k)"
    by auto
  have da: "isDonated (threads ka ?cur) = False" using ta by simp
  from Release_wake_total [OF la, of l] obtain kb where
    b: "Release_wake ka l = Inr kb" and qb: "waitQueue (locks kb l) = []"
    and ob: "\<forall>l'. l' \<noteq> l \<longrightarrow> locks kb l' = locks ka l'"
    and cb: "currentThread kb = currentThread ka"
    and sb: "set (readyList (scheduler kb)) = set (readyList (scheduler ka)) \<union> set (waitQueue (locks ka l))"
    and tb: "\<forall>t. threads kb t = (if t \<in> set (waitQueue (locks ka l))
                               then (threads ka t)\<lparr>status := READY\<rparr> else threads ka t)"
    and pb: "isPreemptive (scheduler kb) = isPreemptive (scheduler ka)"
    by blast
  let ?k1 = "kb\<lparr>locks := (locks kb)(l := (locks kb l)\<lparr>lockHolder := None, locked := False\<rparr>),
                 level := level k\<rparr>"
  have e: "Lock_Release_atomic k l = Inr (isDonated (threads k ?cur), ?k1)"
    using assms a b
    by (simp add: Lock_Release_atomic_def IsHeldByCurrentThread_def CleanDonatedPriority_def Let_def)
  have "isDonated (threads ?k1 ?cur) = False" using tb da by simp
  moreover have "\<forall>w \<in> set (waitQueue (locks k l)). status (threads ?k1 w) = READY"
    using tb lka by simp
  moreover have "set (readyList (scheduler ?k1)) =
               set (readyList (scheduler k)) \<union> set (waitQueue (locks k l))"
    using sb sa lka by simp
  ultimately show ?thesis using e qb ob lka cb ca pb pa by (intro exI [of _ ?k1]) simp
qed

text \<open>
  C1. When the owner of a lock calls \<^verbatim>\<open>Lock::Release\<close>, every thread of the lock's wait
  queue (not only its head) is made \<open>READY\<close> and put on the scheduler's ready list, the
  wait queue is empty afterwards, the holder's donation flag is reset, the owner is
  cleared and the lock is free; and exactly when the scheduler is preemptive and the
  holder had been donated to, the releasing thread then calls \<^verbatim>\<open>Yield\<close>. At the end of
  the call each former waiter is on the ready list or is the thread the yield switched to.
\<close>

theorem Lock_Release_wakes_all_waiters:
  assumes "locked (locks k l) = True" and "lockHolder (locks k l) = Some (currentThread k)"
  shows "\<exists>k1 k'. Lock_Release_atomic k l = Inr (isDonated (threads k (currentThread k)), k1)
           \<and> waitQueue (locks k1 l) = [] \<and> locked (locks k1 l) = False
           \<and> lockHolder (locks k1 l) = None
           \<and> isDonated (threads k1 (currentThread k)) = False
           \<and> set (readyList (scheduler k1)) =
               set (readyList (scheduler k)) \<union> set (waitQueue (locks k l))
           \<and> (\<forall>w \<in> set (waitQueue (locks k l)). status (threads k1 w) = READY)
           \<and> Lock_Release alpha k l =
               (if isPreemptive (scheduler k) \<and> isDonated (threads k (currentThread k))
                then Thread_Yield alpha k1 (currentThread k) else Inr k1)
           \<and> Lock_Release alpha k l = Inr k'
           \<and> waitQueue (locks k' l) = [] \<and> locked (locks k' l) = False
           \<and> lockHolder (locks k' l) = None
           \<and> isDonated (threads k' (currentThread k)) = False
           \<and> (\<forall>w \<in> set (waitQueue (locks k l)).
                 w \<in> set (readyList (scheduler k')) \<or> w = currentThread k')"
proof -
  from Lock_Release_atomic_total [OF assms] obtain k1 where
    a: "Lock_Release_atomic k l = Inr (isDonated (threads k (currentThread k)), k1)"
    and q: "waitQueue (locks k1 l) = []" "locked (locks k1 l) = False"
       "lockHolder (locks k1 l) = None" "isDonated (threads k1 (currentThread k)) = False"
    and s: "set (readyList (scheduler k1)) =
               set (readyList (scheduler k)) \<union> set (waitQueue (locks k l))"
    and r: "\<forall>w \<in> set (waitQueue (locks k l)). status (threads k1 w) = READY"
    and c: "currentThread k1 = currentThread k"
    and p: "isPreemptive (scheduler k1) = isPreemptive (scheduler k)"
    by blast
  have e: "Lock_Release alpha k l =
               (if isPreemptive (scheduler k) \<and> isDonated (threads k (currentThread k))
                then Thread_Yield alpha k1 (currentThread k) else Inr k1)"
    using a c p by (simp add: Lock_Release_def IsPreemptive_def)
  from Thread_Yield_frame [OF c [symmetric], of alpha] obtain k2 where
    y: "Thread_Yield alpha k1 (currentThread k) = Inr k2" "locks k2 = locks k1"
     "\<forall>t. isDonated (threads k2 t) = isDonated (threads k1 t)"
     "set (readyList (scheduler k1)) \<subseteq> insert (currentThread k2) (set (readyList (scheduler k2)))"
    by blast
  show ?thesis
  proof (cases "isPreemptive (scheduler k) \<and> isDonated (threads k (currentThread k))")
    case True
    have "\<forall>w \<in> set (waitQueue (locks k l)).
                 w \<in> set (readyList (scheduler k2)) \<or> w = currentThread k2"
      using s y(4) by auto
    then show ?thesis using True a q s r e y(1-3) by (intro exI [of _ k1] exI [of _ k2]) simp
  next
    case False
    have "\<forall>w \<in> set (waitQueue (locks k l)).
                 w \<in> set (readyList (scheduler k1)) \<or> w = currentThread k1"
      using s by auto
    then show ?thesis using False a q s r e by (intro exI [of _ k1] exI [of _ k1]) auto
  qed
qed

theorem Lock_Release_wakes_all_waiters_witness:
  "\<exists>k'. Lock_Release (1/2) contendedKernel 0 = Inr k'
        \<and> waitQueue (locks k' 0) = [] \<and> locked (locks k' 0) = False
        \<and> lockHolder (locks k' 0) = None \<and> isDonated (threads k' 0) = False
        \<and> (1 \<in> set (readyList (scheduler k')) \<or> 1 = currentThread k')
        \<and> (2 \<in> set (readyList (scheduler k')) \<or> 2 = currentThread k')"
proof -
  have h1: "locked (locks contendedKernel 0) = True"
    by (simp add: contendedKernel_def)
  have c: "currentThread contendedKernel = 0"
    by (simp add: contendedKernel_def bootKernel_def)
  have h2: "lockHolder (locks contendedKernel 0) = Some (currentThread contendedKernel)"
    by (simp add: contendedKernel_def bootKernel_def)
  have q: "waitQueue (locks contendedKernel 0) = [1, 2]"
    by (simp add: contendedKernel_def)
  from Lock_Release_wakes_all_waiters [OF h1 h2, of "1/2"] show ?thesis
    unfolding c q by auto
qed

subsection \<open>Rounding to a significand of \<open>p\<close> bits\<close>

lemma round_half_even_of_int [simp]: "round_half_even (of_int z) = z"
  by (simp add: round_half_even_def)

lemma fp_exponent_le:
  assumes "x \<noteq> 0"
  shows "2 powi fp_exponent x \<le> \<bar>x\<bar>"
proof (cases "1 \<le> \<bar>x\<bar>")
  case True
  let ?z = "floor \<bar>x\<bar>"
  have z: "0 < ?z" using True by linarith
  from bitlen_bounds [OF z] have b: "2 ^ nat (bitlen ?z - 1) \<le> ?z" by simp
  have n: "0 \<le> bitlen ?z - 1" using z by (simp add: bitlen_alt_def)
  have "(2::rat) powi (bitlen ?z - 1) = 2 ^ nat (bitlen ?z - 1)"
    using n by (simp add: power_int_def)
  also have "\<dots> = of_int (2 ^ nat (bitlen ?z - 1))" by simp
  also have "\<dots> \<le> of_int ?z" using b by (simp only: of_int_le_iff)
  also have "\<dots> \<le> \<bar>x\<bar>" by simp
  finally show ?thesis using True by (simp add: fp_exponent_def)
next
  case False
  let ?c = "ceiling (1 / \<bar>x\<bar>)"
  have x: "0 < \<bar>x\<bar>" "\<bar>x\<bar> < 1" using assms False by simp_all
  have "1 < 1 / \<bar>x\<bar>" using x by simp
  then have c: "0 < ?c - 1" by linarith
  from bitlen_bounds [OF c] have b: "?c - 1 < 2 ^ nat (bitlen (?c - 1))" by simp
  have n: "0 \<le> bitlen (?c - 1)" by (rule bitlen_nonneg)
  have "1 / \<bar>x\<bar> \<le> of_int ?c" by simp
  also have "\<dots> \<le> of_int (2 ^ nat (bitlen (?c - 1)))" using b by simp
  also have "\<dots> = 2 ^ nat (bitlen (?c - 1))" by simp
  finally have "1 / \<bar>x\<bar> \<le> 2 ^ nat (bitlen (?c - 1))" .
  then have "1 / 2 ^ nat (bitlen (?c - 1)) \<le> \<bar>x\<bar>"
    using x by (simp add: field_simps)
  moreover have "(2::rat) powi (- bitlen (?c - 1)) = 1 / 2 ^ nat (bitlen (?c - 1))"
    using n by (simp add: power_int_def field_simps)
  ultimately show ?thesis using False by (simp add: fp_exponent_def)
qed

lemma fp_round_exact:
  assumes "\<bar>m\<bar> < 2 ^ p"
  shows "fp_round p (of_int m * 2 powi k) = of_int m * 2 powi k"
proof (cases "m = 0")
  case True
  then show ?thesis by (simp add: fp_round_def)
next
  case False
  let ?x = "of_int m * (2::rat) powi k"
  let ?e = "fp_exponent ?x"
  have x0: "?x \<noteq> 0" using False by simp
  have "2 powi ?e \<le> \<bar>?x\<bar>" by (rule fp_exponent_le [OF x0])
  also have "\<bar>?x\<bar> = of_int \<bar>m\<bar> * 2 powi k" by (simp add: abs_mult)
  also have "\<dots> < of_int (2 ^ p) * 2 powi k"
  proof -
    have "(of_int \<bar>m\<bar> :: rat) < of_int (2 ^ p)" using assms by (simp only: of_int_less_iff)
    moreover have "(0::rat) < 2 powi k" by simp
    ultimately show ?thesis by (rule mult_strict_right_mono)
  qed
  also have "\<dots> = 2 powi (int p + k)" by (simp add: power_int_add)
  finally have "(2::rat) powi ?e < 2 powi (int p + k)" .
  then have lt: "?e < int p + k"
  proof (rule contrapos_pp)
    assume "\<not> ?e < int p + k"
    then have "int p + k \<le> ?e" by simp
    then have "(2::rat) powi (int p + k) \<le> 2 powi ?e" by (rule power_int_increasing) simp
    then show "\<not> (2::rat) powi ?e < 2 powi (int p + k)" by simp
  qed
  define j where "j = nat (k - (?e - (int p - 1)))"
  have j: "k - (?e - (int p - 1)) = int j" using lt by (simp add: j_def)
  have "?x / 2 powi (?e - (int p - 1)) = of_int m * 2 powi (k - (?e - (int p - 1)))"
    by (simp add: power_int_diff)
  also have "\<dots> = of_int (m * 2 ^ j)" by (simp add: j)
  finally have q: "?x / 2 powi (?e - (int p - 1)) = of_int (m * 2 ^ j)" .
  have "fp_round p ?x = of_int (m * 2 ^ j) * 2 powi (?e - (int p - 1))"
    using x0 by (simp only: fp_round_def Let_def q round_half_even_of_int if_False)
  also have "\<dots> = of_int m * (2 powi (int j) * 2 powi (?e - (int p - 1)))" by simp
  also have "2 powi (int j) * (2::rat) powi (?e - (int p - 1)) = 2 powi k"
  proof -
    have "(2::rat) powi (int j) * 2 powi (?e - (int p - 1))
            = 2 powi (int j + (?e - (int p - 1)))" by (simp add: power_int_add)
    also have "int j + (?e - (int p - 1)) = k" using j by simp
    finally show ?thesis .
  qed
  finally show ?thesis .
qed

lemma dyadic_product_bound:
  assumes "0 \<le> n" and "n \<le> 2 ^ j" and "j \<le> 29" and "\<bar>a\<bar> < 2 ^ 24"
  shows "\<bar>n * a\<bar> < (2::int) ^ 53"
proof -
  have "\<bar>n * a\<bar> = n * \<bar>a\<bar>" using assms(1) by (simp add: abs_mult)
  also have "\<dots> \<le> 2 ^ j * \<bar>a\<bar>" using assms(2) by (rule mult_right_mono) simp
  also have "\<dots> < 2 ^ j * 2 ^ 24" using assms(4) by (rule mult_strict_left_mono) simp
  also have "\<dots> = 2 ^ (j + 24)" by (simp only: power_add)
  also have "\<dots> \<le> (2::int) ^ 53" using assms(3) by (intro power_increasing) simp_all
  finally show ?thesis .
qed

lemma dyadic_sum_bound:
  assumes "0 \<le> n" and "n \<le> 2 ^ j" and "j \<le> 29" and "\<bar>a\<bar> < 2 ^ 24" and "\<bar>b\<bar> < 2 ^ 24"
  shows "\<bar>n * a + (2 ^ j - n) * b\<bar> < (2::int) ^ 53"
proof -
  have "\<bar>n * a + (2 ^ j - n) * b\<bar> \<le> \<bar>n * a\<bar> + \<bar>(2 ^ j - n) * b\<bar>" by (rule abs_triangle_ineq)
  also have "\<dots> = n * \<bar>a\<bar> + (2 ^ j - n) * \<bar>b\<bar>"
    using assms(1,2) by (simp add: abs_mult)
  also have "\<dots> \<le> n * (2 ^ 24 - 1) + (2 ^ j - n) * (2 ^ 24 - 1)"
  proof (rule add_mono)
    show "n * \<bar>a\<bar> \<le> n * (2 ^ 24 - 1)" using assms(1,4) by (intro mult_left_mono) simp_all
    show "(2 ^ j - n) * \<bar>b\<bar> \<le> (2 ^ j - n) * (2 ^ 24 - 1)"
      using assms(2,5) by (intro mult_left_mono) simp_all
  qed
  also have "\<dots> = 2 ^ j * (2 ^ 24 - 1)" by (simp only: distrib_right [symmetric]) simp
  also have "\<dots> < 2 ^ j * 2 ^ 24" by (rule mult_strict_left_mono) simp_all
  also have "\<dots> = 2 ^ (j + 24)" by (simp only: power_add)
  also have "\<dots> \<le> (2::int) ^ 53" using assms(3) by (intro power_increasing) simp_all
  finally show ?thesis .
qed

lemma dyadic_sum_le:
  assumes "0 \<le> n" and "n \<le> 2 ^ j" and "\<bar>a\<bar> < 2 ^ 24" and "\<bar>b\<bar> < 2 ^ 24"
  shows "\<bar>n * a + (2 ^ j - n) * b\<bar> \<le> 2 ^ j * ((2::int) ^ 24 - 1)"
proof -
  have "\<bar>n * a + (2 ^ j - n) * b\<bar> \<le> \<bar>n * a\<bar> + \<bar>(2 ^ j - n) * b\<bar>" by (rule abs_triangle_ineq)
  also have "\<dots> = n * \<bar>a\<bar> + (2 ^ j - n) * \<bar>b\<bar>"
    using assms(1,2) by (simp add: abs_mult)
  also have "\<dots> \<le> n * (2 ^ 24 - 1) + (2 ^ j - n) * (2 ^ 24 - 1)"
  proof (rule add_mono)
    show "n * \<bar>a\<bar> \<le> n * (2 ^ 24 - 1)" using assms(1,3) by (intro mult_left_mono) simp_all
    show "(2 ^ j - n) * \<bar>b\<bar> \<le> (2 ^ j - n) * (2 ^ 24 - 1)"
      using assms(2,4) by (intro mult_left_mono) simp_all
  qed
  also have "\<dots> = 2 ^ j * (2 ^ 24 - 1)" by (simp only: distrib_right [symmetric]) simp
  finally show ?thesis .
qed

lemma double_to_int_in_range:
  assumes "\<bar>q\<bar> \<le> 2147483647"
  shows "double_to_int q = truncate_to_int q"
proof -
  have "- 2147483648 \<le> truncate_to_int q \<and> truncate_to_int q \<le> 2147483647"
  proof (cases "q < 0")
    case True
    have "of_int (- 2147483647) \<le> q" using assms by simp
    from ceiling_mono [OF this] have "- 2147483647 \<le> ceiling q" by simp
    moreover have "ceiling q \<le> 0" using True by (simp add: ceiling_le_iff)
    ultimately show ?thesis using True by (simp add: truncate_to_int_def)
  next
    case False
    have "q \<le> of_int 2147483647" using assms by simp
    from floor_mono [OF this] have "floor q \<le> 2147483647" by simp
    moreover have "0 \<le> floor q" using False by simp
    ultimately show ?thesis using False by (simp add: truncate_to_int_def)
  qed
  then show ?thesis by (auto simp add: double_to_int_def Let_def)
qed

lemma predictBurst_exact:
  assumes al: "alpha = of_int n / 2 ^ j" and n: "0 \<le> n" "n \<le> 2 ^ j" and j: "j \<le> 29"
    and a: "\<bar>a\<bar> < 2 ^ 24" and b: "\<bar>b\<bar> < 2 ^ 24"
  shows "predictBurst alpha a b = truncate_to_int (alpha * of_int a + (1 - alpha) * of_int b)"
proof -
  have al': "alpha = of_int n * 2 powi (- int j)"
    by (simp add: al power_int_minus field_simps)
  have one: "\<bar>1::int\<bar> < 2 ^ 24" by simp
  have fal: "fp_round 53 alpha = alpha"
    using fp_round_exact [OF dyadic_product_bound [OF n j one], of "- int j"]
    by (simp add: al')
  have fa: "fp_round 24 (of_int a) = of_int a"
    using fp_round_exact [of a 24 0] a by simp
  have fb: "fp_round 24 (of_int b) = of_int b"
    using fp_round_exact [of b 24 0] b by simp
  have pa: "fp_round 53 (alpha * of_int a) = alpha * of_int a"
    using fp_round_exact [OF dyadic_product_bound [OF n j a], of "- int j"]
    by (simp add: al' mult_ac)
  have c1: "1 - alpha = of_int (2 ^ j - n) * 2 powi (- int j)"
    by (simp add: al power_int_minus field_simps)
  have n': "0 \<le> 2 ^ j - n" "2 ^ j - n \<le> 2 ^ j" using n by simp_all
  have pc: "fp_round 53 (1 - alpha) = 1 - alpha"
    using fp_round_exact [OF dyadic_product_bound [OF n' j one], of "- int j"]
    by (simp add: c1)
  have pb: "fp_round 53 ((1 - alpha) * of_int b) = (1 - alpha) * of_int b"
    using fp_round_exact [OF dyadic_product_bound [OF n' j b], of "- int j"]
    by (simp add: c1 mult_ac)
  have s: "alpha * of_int a + (1 - alpha) * of_int b
             = of_int (n * a + (2 ^ j - n) * b) * 2 powi (- int j)"
  proof -
    have "alpha * of_int a + (1 - alpha) * of_int b
            = of_int n * 2 powi (- int j) * of_int a
              + of_int (2 ^ j - n) * 2 powi (- int j) * of_int b"
      by (simp only: c1) (simp only: al')
    also have "\<dots> = of_int (n * a + (2 ^ j - n) * b) * 2 powi (- int j)"
      by (simp only: of_int_add of_int_mult) (simp only: algebra_simps)
    finally show ?thesis .
  qed
  have ps: "fp_round 53 (alpha * of_int a + (1 - alpha) * of_int b)
              = alpha * of_int a + (1 - alpha) * of_int b"
    using fp_round_exact [OF dyadic_sum_bound [OF n j a b], of "- int j"]
    by (simp only: s)
  have "\<bar>alpha * of_int a + (1 - alpha) * of_int b\<bar>
          = of_int \<bar>n * a + (2 ^ j - n) * b\<bar> / 2 ^ j"
    by (simp only: s) (simp add: power_int_minus abs_mult field_simps)
  also have "\<dots> \<le> of_int (2 ^ j * (2 ^ 24 - 1)) / 2 ^ j"
    using dyadic_sum_le [OF n a b] by (simp only: of_int_le_iff divide_right_mono zero_le_power zero_le_numeral)
  also have "\<dots> = 2 ^ 24 - 1" by simp
  finally have "\<bar>alpha * of_int a + (1 - alpha) * of_int b\<bar> \<le> 2147483647" by simp
  then have "double_to_int (alpha * of_int a + (1 - alpha) * of_int b)
               = truncate_to_int (alpha * of_int a + (1 - alpha) * of_int b)"
    by (rule double_to_int_in_range)
  then show ?thesis by (simp only: predictBurst_def Let_def fal fa fb pa pc pb ps)
qed

text \<open>
  C5 (amended statement). Every call of \<^verbatim>\<open>Thread::Sleep\<close>, and every call of
  \<^verbatim>\<open>Thread::Yield\<close> that finds another thread to switch to, replaces the predicted
  \<^verbatim>\<open>burstTime\<close> by \<open>alpha * actualBurst + (1 - alpha) * burstTime\<close> as the code computes
  it (both integers converted to \<^verbatim>\<open>float\<close>, \<open>alpha\<close>, products and sum in
  \<^verbatim>\<open>double\<close>) truncated to an integer, where \<open>actualBurst\<close> is the user ticks elapsed since the last dispatch.
  This is the exact value of the formula, truncated, whenever \<open>alpha\<close> is \<open>n / 2^j\<close> with
  \<open>0 \<le> n \<le> 2^j\<close>, \<open>j \<le> 29\<close> and both operands are below \<open>2^24\<close> in magnitude. A
  \<^verbatim>\<open>Yield\<close> that finds no other thread leaves \<^verbatim>\<open>burstTime\<close> as it is. The initial
  prediction is 10, and with \<open>alpha = 1/2\<close> two successive bursts of 20 and 40 give 27.
\<close>

theorem burst_prediction_on_sleep_and_switching_yield:
  assumes "this = currentThread k"
  shows "(level k = IntOff \<and> (finishing \<longrightarrow> toBeDestroyed (scheduler k) = None) \<longrightarrow>
           (\<exists>k'. Thread_Sleep alpha k this finishing = Inr k' \<and>
              burstTime (threads k' this) =
                predictBurst alpha (userTicks k - startTicks (threads k this))
                  (burstTime (threads k this))))
       \<and> (\<exists>k'. Thread_Yield alpha k this = Inr k' \<and>
              burstTime (threads k' this) =
                (if yieldFindsOther k this
                 then predictBurst alpha (userTicks k - startTicks (threads k this))
                        (burstTime (threads k this))
                 else burstTime (threads k this)))
       \<and> predictBurst alpha a b =
           double_to_int
             (fp_round 53
                (fp_round 53 (fp_round 53 alpha * fp_round 24 (of_int a))
                 + fp_round 53 (fp_round 53 (1 - fp_round 53 alpha) * fp_round 24 (of_int b))))
       \<and> (alpha = of_int n / 2 ^ e \<and> 0 \<le> n \<and> n \<le> 2 ^ e \<and> e \<le> 29
            \<and> \<bar>a\<bar> < 2 ^ 24 \<and> \<bar>b\<bar> < 2 ^ 24 \<longrightarrow>
           predictBurst alpha a b = truncate_to_int (alpha * of_int a + (1 - alpha) * of_int b))
       \<and> burstTime (Thread_ctor nm p j) = 10
       \<and> predictBurst (1/2) 40 (predictBurst (1/2) 20 10) = 27"
proof -
  have "predictBurst (1/2) 40 (predictBurst (1/2) 20 10) = 27" by code_simp
  moreover have "burstTime (Thread_ctor nm p j) = 10"
    by (simp add: Thread_ctor_def Let_def)
  moreover have "alpha = of_int n / 2 ^ e \<and> 0 \<le> n \<and> n \<le> 2 ^ e \<and> e \<le> 29
            \<and> \<bar>a\<bar> < 2 ^ 24 \<and> \<bar>b\<bar> < 2 ^ 24 \<longrightarrow>
           predictBurst alpha a b = truncate_to_int (alpha * of_int a + (1 - alpha) * of_int b)"
    using predictBurst_exact [of alpha n e a b] by blast
  moreover have "predictBurst alpha a b =
           double_to_int
             (fp_round 53
                (fp_round 53 (fp_round 53 alpha * fp_round 24 (of_int a))
                 + fp_round 53 (fp_round 53 (1 - fp_round 53 alpha) * fp_round 24 (of_int b))))"
    by (simp only: predictBurst_def Let_def)
  moreover note Thread_Sleep_burst [of this k finishing alpha] Thread_Yield_burst [OF assms, of alpha]
  ultimately show ?thesis using assms by blast
qed

theorem burst_prediction_on_sleep_and_switching_yield_witness:
  "(\<exists>k'. Thread_Sleep (1/2) pairKernel 0 False = Inr k' \<and> burstTime (threads k' 0) = 15)
   \<and> (\<exists>k'. Thread_Yield (1/2) pairKernel 0 = Inr k' \<and> burstTime (threads k' 0) = 15)
   \<and> predictBurst (1/2) 20 10 = truncate_to_int (1/2 * of_int 20 + (1 - 1/2) * of_int 10)"
proof -
  have c: "0 = currentThread pairKernel" by (simp add: pairKernel_def bootKernel_def)
  have l: "level pairKernel = IntOff" by (simp add: pairKernel_def)
  have y: "yieldFindsOther pairKernel 0" by code_simp
  have v: "userTicks pairKernel - startTicks (threads pairKernel 0) = 20"
    "burstTime (threads pairKernel 0) = 10"
    by (simp_all add: pairKernel_def bootKernel_def Thread_ctor_def Let_def)
  have p: "predictBurst (1/2) 20 10 = 15" by code_simp
  have h: "(1/2 :: rat) = of_int 1 / 2 ^ 1 \<and> (0::int) \<le> 1 \<and> (1::int) \<le> 2 ^ 1 \<and> (1::nat) \<le> 29
            \<and> \<bar>20::int\<bar> < 2 ^ 24 \<and> \<bar>10::int\<bar> < 2 ^ 24"
    by simp
  note t = burst_prediction_on_sleep_and_switching_yield [OF c, of False "1/2" 20 10 1 1,
             unfolded v p]
  have 1: "\<exists>k'. Thread_Sleep (1/2) pairKernel 0 False = Inr k' \<and> burstTime (threads k' 0) = 15"
    using t l by blast
  have 2: "\<exists>k'. Thread_Yield (1/2) pairKernel 0 = Inr k' \<and> burstTime (threads k' 0) = 15"
    using t y by auto
  have 3: "15 = truncate_to_int (1/2 * of_int 20 + (1 - 1/2) * of_int 10)"
    using t h by blast
  from 1 2 3 show ?thesis unfolding p by blast
qed

text \<open>
  C5 (counterexample). The original statement fails for \<^verbatim>\<open>Yield\<close>: with an empty
  ready list the running thread keeps its prediction of 10 although 20 user ticks have
  elapsed and the formula gives 15. It also fails for long bursts: after 16777219 user
  ticks \<^verbatim>\<open>Sleep\<close> stores 8388615, because the conversion to \<^verbatim>\<open>float\<close> rounds the burst
  to 16777220, where the formula gives 8388614.5, truncated 8388614.
\<close>

theorem burst_prediction_counterexample:
  "map_sum id (\<lambda>k'. burstTime (threads k' 0)) (Thread_Yield (1/2) soloKernel 0) = Inr 10
   \<and> truncate_to_int
        (1/2 * of_int (userTicks soloKernel - startTicks (threads soloKernel 0))
         + (1 - 1/2) * of_int (burstTime (threads soloKernel 0))) = 15
   \<and> map_sum id (\<lambda>k'. burstTime (threads k' 0)) (Thread_Sleep (1/2) longBurstKernel 0 False)
        = Inr 8388615
   \<and> truncate_to_int
        (1/2 * of_int (userTicks longBurstKernel - startTicks (threads longBurstKernel 0))
         + (1 - 1/2) * of_int (burstTime (threads longBurstKernel 0))) = 8388614"
proof -
  have y: "\<not> yieldFindsOther soloKernel 0" by code_simp
  have c: "0 = currentThread soloKernel" by (simp add: soloKernel_def bootKernel_def)
  have v: "userTicks soloKernel - startTicks (threads soloKernel 0) = 20"
    "burstTime (threads soloKernel 0) = 10"
    by (simp_all add: soloKernel_def bootKernel_def Thread_ctor_def Let_def)
  from Thread_Yield_burst [OF c, of "1/2"]
  have 1: "map_sum id (\<lambda>k'. burstTime (threads k' 0)) (Thread_Yield (1/2) soloKernel 0) = Inr 10"
    using y v by auto
  have 2: "truncate_to_int
        (1/2 * of_int (userTicks soloKernel - startTicks (threads soloKernel 0))
         + (1 - 1/2) * of_int (burstTime (threads soloKernel 0))) = 15"
    unfolding v by code_simp
  have c': "0 = currentThread longBurstKernel" "level longBurstKernel = IntOff"
    by (simp_all add: longBurstKernel_def bootKernel_def)
  have v': "userTicks longBurstKernel - startTicks (threads longBurstKernel 0) = 16777219"
    "burstTime (threads longBurstKernel 0) = 10"
    by (simp_all add: longBurstKernel_def bootKernel_def Thread_ctor_def Let_def)
  have p: "predictBurst (1/2) 16777219 10 = 8388615" by code_simp
  from Thread_Sleep_burst [OF c', of False "1/2"]
  have 3: "map_sum id (\<lambda>k'. burstTime (threads k' 0)) (Thread_Sleep (1/2) longBurstKernel 0 False)
        = Inr 8388615"
    unfolding v' p by auto
  have 4: "truncate_to_int
        (1/2 * of_int (userTicks longBurstKernel - startTicks (threads longBurstKernel 0))
         + (1 - 1/2) * of_int (burstTime (threads longBurstKernel 0))) = 8388614"
    unfolding v' by code_simp
  from 1 2 3 4 show ?thesis by blast
qed

subsection \<open>The open-file table\<close>

lemma AddOpenFileEntry_loop_full:
  "(\<forall>j. i \<le> j \<and> j < length tbl \<longrightarrow> inUse (tbl ! j)) \<Longrightarrow>
     AddOpenFileEntry_loop tbl f i = (-1, tbl)"
proof (induction "length tbl - i" arbitrary: i)
  case 0
  then show ?case by (simp add: AddOpenFileEntry_loop.simps [of tbl f i] MaxNumUserOpenFiles_def)
next
  case (Suc n)
  then have "AddOpenFileEntry_loop tbl f (i + 1) = (-1, tbl)" by auto
  then show ?case using Suc.prems
    by (simp add: AddOpenFileEntry_loop.simps [of tbl f i] MaxNumUserOpenFiles_def)
qed

lemma AddOpenFileEntry_loop_found:
  "i \<le> r \<Longrightarrow> r < length tbl \<Longrightarrow> \<not> inUse (tbl ! r) \<Longrightarrow>
   (\<forall>j. i \<le> j \<and> j < r \<longrightarrow> inUse (tbl ! j)) \<Longrightarrow>
     AddOpenFileEntry_loop tbl f i = (int r, tbl[r := \<lparr>openFile = f, inUse = True\<rparr>])"
proof (induction "r - i" arbitrary: i)
  case 0
  then show ?case by (simp add: AddOpenFileEntry_loop.simps [of tbl f i] MaxNumUserOpenFiles_def)
next
  case (Suc n)
  then have "AddOpenFileEntry_loop tbl f (i + 1) = (int r, tbl[r := \<lparr>openFile = f, inUse = True\<rparr>])"
    by auto
  moreover have "inUse (tbl ! i)" "i < length tbl" using Suc.prems Suc.hyps(2) by auto
  ultimately show ?case
    by (simp add: AddOpenFileEntry_loop.simps [of tbl f i] MaxNumUserOpenFiles_def)
qed

text \<open>
  C9 (amended statement). The per-thread open-file table has the fixed capacity
  \<^verbatim>\<open>MaxNumUserOpenFiles\<close>. \<^verbatim>\<open>AddOpenFileEntry\<close> stores the new open file at the
  lowest-index free slot and returns that index, or returns -1 and changes nothing when
  every slot is in use. \<^verbatim>\<open>RemoveOpenFileEntry(fd)\<close> returns \<open>False\<close> for an out-of-range
  or unused \<open>fd\<close> and otherwise frees the slot. After closing \<open>fd\<close>, the next file opened
  gets the lowest free index: the reclaimed \<open>fd\<close> whenever every slot below it is in use.
\<close>

theorem open_file_table_lowest_free_slot:
  "(r < length tbl \<and> \<not> inUse (tbl ! r) \<and> (\<forall>j<r. inUse (tbl ! j)) \<longrightarrow>
      AddOpenFileEntry tbl f = (int r, tbl[r := \<lparr>openFile = f, inUse = True\<rparr>]))
   \<and> ((\<forall>j<length tbl. inUse (tbl ! j)) \<longrightarrow> AddOpenFileEntry tbl f = (-1, tbl))
   \<and> (fd < 0 \<or> fd \<ge> MaxNumUserOpenFiles tbl \<or> \<not> inUse (tbl ! nat fd) \<longrightarrow>
        RemoveOpenFileEntry tbl fd = (False, tbl))
   \<and> (0 \<le> fd \<and> fd < MaxNumUserOpenFiles tbl \<and> inUse (tbl ! nat fd) \<longrightarrow>
        RemoveOpenFileEntry tbl fd = (True, tbl[nat fd := \<lparr>openFile = None, inUse = False\<rparr>])
        \<and> GetOpenFileEntry (snd (RemoveOpenFileEntry tbl fd)) fd = None
        \<and> ((\<forall>j<nat fd. inUse (tbl ! j)) \<longrightarrow>
              fst (AddOpenFileEntry (snd (RemoveOpenFileEntry tbl fd)) f) = fd))"
proof -
  have a: "r < length tbl \<and> \<not> inUse (tbl ! r) \<and> (\<forall>j<r. inUse (tbl ! j)) \<longrightarrow>
      AddOpenFileEntry tbl f = (int r, tbl[r := \<lparr>openFile = f, inUse = True\<rparr>])"
    using AddOpenFileEntry_loop_found [of 0 r tbl f] by (simp add: AddOpenFileEntry_def)
  have b: "(\<forall>j<length tbl. inUse (tbl ! j)) \<longrightarrow> AddOpenFileEntry tbl f = (-1, tbl)"
    using AddOpenFileEntry_loop_full [of 0 tbl f] by (simp add: AddOpenFileEntry_def)
  have c: "fd < 0 \<or> fd \<ge> MaxNumUserOpenFiles tbl \<or> \<not> inUse (tbl ! nat fd) \<longrightarrow>
        RemoveOpenFileEntry tbl fd = (False, tbl)"
    by (auto simp add: RemoveOpenFileEntry_def)
  have d: "0 \<le> fd \<and> fd < MaxNumUserOpenFiles tbl \<and> inUse (tbl ! nat fd) \<longrightarrow>
        RemoveOpenFileEntry tbl fd = (True, tbl[nat fd := \<lparr>openFile = None, inUse = False\<rparr>])
        \<and> GetOpenFileEntry (snd (RemoveOpenFileEntry tbl fd)) fd = None
        \<and> ((\<forall>j<nat fd. inUse (tbl ! j)) \<longrightarrow>
              fst (AddOpenFileEntry (snd (RemoveOpenFileEntry tbl fd)) f) = fd)"
  proof (intro impI conjI)
    assume h: "0 \<le> fd \<and> fd < MaxNumUserOpenFiles tbl \<and> inUse (tbl ! nat fd)"
    let ?t = "tbl[nat fd := \<lparr>openFile = None, inUse = False\<rparr>]"
    show r: "RemoveOpenFileEntry tbl fd = (True, ?t)"
      using h by (simp add: RemoveOpenFileEntry_def)
    have n: "nat fd < length tbl" using h by (auto simp add: MaxNumUserOpenFiles_def)
    show "GetOpenFileEntry (snd (RemoveOpenFileEntry tbl fd)) fd = None"
      using r n by (simp add: GetOpenFileEntry_def)
    assume l: "\<forall>j<nat fd. inUse (tbl ! j)"
    have "AddOpenFileEntry_loop ?t f 0 = (int (nat fd), ?t[nat fd := \<lparr>openFile = f, inUse = True\<rparr>])"
      using n l by (intro AddOpenFileEntry_loop_found) auto
    then show "fst (AddOpenFileEntry (snd (RemoveOpenFileEntry tbl fd)) f) = fd"
      using r h by (simp add: AddOpenFileEntry_def)
  qed
  from a b c d show ?thesis by blast
qed

lemma threeFiles_eq: "threeFiles =
   [\<lparr>openFile = Some 10, inUse = True\<rparr>, \<lparr>openFile = Some 11, inUse = True\<rparr>,
    \<lparr>openFile = Some 12, inUse = True\<rparr>, \<lparr>openFile = None, inUse = False\<rparr>,
    \<lparr>openFile = None, inUse = False\<rparr>]"
  by code_simp

lemma fiveFiles_eq: "fiveFiles =
   [\<lparr>openFile = Some 10, inUse = True\<rparr>, \<lparr>openFile = Some 11, inUse = True\<rparr>,
    \<lparr>openFile = Some 12, inUse = True\<rparr>, \<lparr>openFile = Some 13, inUse = True\<rparr>,
    \<lparr>openFile = Some 14, inUse = True\<rparr>]"
  by code_simp

theorem open_file_table_lowest_free_slot_witness:
  "AddOpenFileEntry threeFiles (Some 15) =
      (3, threeFiles[3 := \<lparr>openFile = Some 15, inUse = True\<rparr>])
   \<and> AddOpenFileEntry fiveFiles (Some 15) = (-1, fiveFiles)
   \<and> RemoveOpenFileEntry fiveFiles 7 = (False, fiveFiles)
   \<and> RemoveOpenFileEntry fiveFiles 2 =
        (True, fiveFiles[2 := \<lparr>openFile = None, inUse = False\<rparr>])
   \<and> GetOpenFileEntry (snd (RemoveOpenFileEntry fiveFiles 2)) 2 = None
   \<and> fst (AddOpenFileEntry (snd (RemoveOpenFileEntry fiveFiles 2)) (Some 15)) = 2"
proof -
  have a: "3 < length threeFiles \<and> \<not> inUse (threeFiles ! 3) \<and> (\<forall>j<3. inUse (threeFiles ! j))"
    by (simp add: threeFiles_eq nth_Cons' less_Suc_eq numeral_3_eq_3)
  have b: "\<forall>j<length fiveFiles. inUse (fiveFiles ! j)"
    by (simp add: fiveFiles_eq nth_Cons' less_Suc_eq eval_nat_numeral)
  have c: "(7::int) < 0 \<or> 7 \<ge> MaxNumUserOpenFiles fiveFiles \<or> \<not> inUse (fiveFiles ! nat 7)"
    by (simp add: fiveFiles_eq MaxNumUserOpenFiles_def)
  have d: "(0::int) \<le> 2 \<and> 2 < MaxNumUserOpenFiles fiveFiles \<and> inUse (fiveFiles ! nat 2)"
    by (simp add: fiveFiles_eq MaxNumUserOpenFiles_def)
  have e: "\<forall>j<nat 2. inUse (fiveFiles ! j)"
    using b by (simp add: fiveFiles_eq)
  from open_file_table_lowest_free_slot [of 3 threeFiles "Some 15" 7] a
  have w1: "AddOpenFileEntry threeFiles (Some 15) =
      (int 3, threeFiles[3 := \<lparr>openFile = Some 15, inUse = True\<rparr>])"
    by blast
  from open_file_table_lowest_free_slot [of 3 fiveFiles "Some 15" 7] b c
  have w2: "AddOpenFileEntry fiveFiles (Some 15) = (-1, fiveFiles)
      \<and> RemoveOpenFileEntry fiveFiles 7 = (False, fiveFiles)"
    by blast
  from open_file_table_lowest_free_slot [of 3 fiveFiles "Some 15" 2] d e
  have w3: "RemoveOpenFileEntry fiveFiles 2 =
        (True, fiveFiles[nat 2 := \<lparr>openFile = None, inUse = False\<rparr>])
      \<and> GetOpenFileEntry (snd (RemoveOpenFileEntry fiveFiles 2)) 2 = None
      \<and> fst (AddOpenFileEntry (snd (RemoveOpenFileEntry fiveFiles 2)) (Some 15)) = 2"
    by blast
  have n: "int 3 = 3" "nat 2 = 2" by simp_all
  show ?thesis using w1 [unfolded n] w2 w3 [unfolded n] by blast
qed

text \<open>
  C9 (counterexample). The original statement fails when a lower slot is free: with
  slots 0 and 2 in use and slot 1 free, closing descriptor 2 and opening another file
  assigns index 1, not 2.
\<close>

theorem reclaimed_index_counterexample:
  "fst (RemoveOpenFileEntry holeTable 2) = True
   \<and> fst (AddOpenFileEntry (snd (RemoveOpenFileEntry holeTable 2)) (Some 15)) = 1"
  by code_simp

subsection \<open>The Read and Write system calls\<close>

lemma AdvancePC_result [simp]:
  "ReadRegister (AdvancePC m) 2 = ReadRegister m 2"
  "mainMemory (AdvancePC m) = mainMemory m"
  by (simp_all add: AdvancePC_def WriteRegister_def ReadRegister_def Let_def
        PCReg_def NextPCReg_def PrevPCReg_def)

lemma WriteRegister_result [simp]:
  "ReadRegister (WriteRegister m r v) r = v"
  "mainMemory (WriteRegister m r v) = mainMemory m"
  by (simp_all add: WriteRegister_def ReadRegister_def)

lemma WriteChars_loop_spec:
  "WriteChars_loop m addr buf limit b = (c, m') \<Longrightarrow> int b \<le> limit \<Longrightarrow>
     int b \<le> c \<and> c \<le> limit \<and> registers m' = registers m \<and> writable m' = writable m
     \<and> readable m' = readable m
     \<and> (\<forall>a. mainMemory m' a =
            (if addr + int b \<le> a \<and> a < addr + c then buf ! nat (a - addr) else mainMemory m a))
     \<and> (\<forall>a. addr + int b \<le> a \<and> a < addr + c \<longrightarrow> writable m a)
     \<and> (c < limit \<longrightarrow> \<not> writable m (addr + c))"
proof (induction m addr buf limit b arbitrary: c m' rule: WriteChars_loop.induct)
  case (1 m addr buf limit bufSize)
  show ?case
  proof (cases "int bufSize < limit")
    case False
    then show ?thesis using "1.prems"
      by (auto simp add: WriteChars_loop.simps [of m addr buf limit bufSize])
  next
    case True
    show ?thesis
    proof (cases "writable m (addr + int bufSize)")
      case False
      then show ?thesis using True "1.prems"
        by (auto simp add: WriteChars_loop.simps [of m addr buf limit bufSize] WriteMem_def)
    next
      case w: True
      let ?m1 = "m\<lparr>mainMemory := (mainMemory m)(addr + int bufSize := buf ! bufSize)\<rparr>"
      have wm: "WriteMem m (addr + int bufSize) (buf ! bufSize) = (True, ?m1)"
        using w by (simp add: WriteMem_def)
      have r: "WriteChars_loop ?m1 addr buf limit (bufSize + 1) = (c, m')"
        using True wm "1.prems"(1)
        by (simp add: WriteChars_loop.simps [of m addr buf limit bufSize])
      have "int (bufSize + 1) \<le> limit" using True by simp
      from "1.IH" [OF True wm [symmetric] refl r this]
      have ih: "int (bufSize + 1) \<le> c" "c \<le> limit" "registers m' = registers ?m1"
        "writable m' = writable ?m1" "readable m' = readable ?m1"
        "\<forall>a. mainMemory m' a =
            (if addr + int (bufSize + 1) \<le> a \<and> a < addr + c then buf ! nat (a - addr)
             else mainMemory ?m1 a)"
        "\<forall>a. addr + int (bufSize + 1) \<le> a \<and> a < addr + c \<longrightarrow> writable ?m1 a"
        "c < limit \<longrightarrow> \<not> writable ?m1 (addr + c)"
        by blast+
      have mem: "\<forall>a. mainMemory m' a =
            (if addr + int bufSize \<le> a \<and> a < addr + c then buf ! nat (a - addr) else mainMemory m a)"
      proof
        fix a
        show "mainMemory m' a =
            (if addr + int bufSize \<le> a \<and> a < addr + c then buf ! nat (a - addr) else mainMemory m a)"
        proof (cases "a = addr + int bufSize")
          case True
          then show ?thesis using ih(1) ih(6) by simp
        next
          case False
          then show ?thesis using ih(6) by auto
        qed
      qed
      have wr: "\<forall>a. addr + int bufSize \<le> a \<and> a < addr + c \<longrightarrow> writable m a"
      proof (intro allI impI)
        fix a assume h: "addr + int bufSize \<le> a \<and> a < addr + c"
        show "writable m a"
        proof (cases "a = addr + int bufSize")
          case True then show ?thesis using w by simp
        next
          case False then show ?thesis using ih(7) h by auto
        qed
      qed
      show ?thesis using ih(1-5,8) mem wr by auto
    qed
  qed
qed

lemma ReadString_loop_length:
  "int (length (ReadString_loop m addr limit i ch buf)) \<le> int (length buf) + max 0 (limit - int i)"
proof (induction m addr limit i ch buf rule: ReadString_loop.induct)
  case (1 m addr limit i ch buf)
  show ?case
  proof (cases "addr > 0 \<and> limit > 0 \<and> \<not> int i \<ge> limit")
    case False
    then show ?thesis by (auto simp add: ReadString_loop.simps [of m addr limit i ch buf])
  next
    case True
    let ?ch = "case ReadMem m (addr + int i) of None \<Rightarrow> ch | Some b \<Rightarrow> uint b"
    show ?thesis
    proof (cases "?ch = 0")
      case z: True
      then show ?thesis using True
        by (simp add: ReadString_loop.simps [of m addr limit i ch buf] Let_def)
    next
      case nz: False
      have "int (length (ReadString_loop m addr limit (i + 1) ?ch (buf @ [word_of_int ?ch])))
          \<le> int (length (buf @ [word_of_int ?ch])) + max 0 (limit - int (i + 1))"
        using "1.IH" [of ?ch] True nz by auto
      then show ?thesis using True nz
        by (simp add: ReadString_loop.simps [of m addr limit i ch buf] Let_def)
    qed
  qed
qed

lemma wrap_int32_id: "- 2147483648 \<le> x \<Longrightarrow> x \<le> 2147483647 \<Longrightarrow> wrap_int32 x = x"
  by (simp add: wrap_int32_def)

lemma new_char_array_ok: "0 \<le> n \<Longrightarrow> n < INT_MAX \<Longrightarrow> new_char_array (n + 1) = Inr ()"
  by (simp add: new_char_array_def INT_MAX_def wrap_int32_id)

lemma new_char_array_overflow: "new_char_array (INT_MAX + 1) = Inl BadAlloc"
  by (simp add: new_char_array_def INT_MAX_def wrap_int32_def)

lemma ReadString_loop_readable:
  assumes "addr > 0" and "limit > 0"
    and "\<forall>j. i \<le> j \<and> int j < limit \<longrightarrow> readable m (addr + int j)"
  shows "ReadString_loop m addr limit i ch buf =
           buf @ takeWhile (\<lambda>b. b \<noteq> 0) (map (\<lambda>j. mainMemory m (addr + int j)) [i..<nat limit])"
  using assms
proof (induction m addr limit i ch buf rule: ReadString_loop.induct)
  case (1 m addr limit i ch buf)
  show ?case
  proof (cases "int i \<ge> limit")
    case True
    then show ?thesis using "1.prems"
      by (simp add: ReadString_loop.simps [of m addr limit i ch buf])
  next
    case False
    then have lt: "i < nat limit" by simp
    have r: "ReadMem m (addr + int i) = Some (mainMemory m (addr + int i))"
      using "1.prems"(3) False by (simp add: ReadMem_def)
    let ?b = "mainMemory m (addr + int i)"
    have u: "[i..<nat limit] = i # [Suc i..<nat limit]" using lt by (rule upt_conv_Cons)
    show ?thesis
    proof (cases "?b = 0")
      case True
      then show ?thesis using False "1.prems"(1,2) r u
        by (simp add: ReadString_loop.simps [of m addr limit i ch buf] Let_def)
    next
      case nz: False
      then have nz': "uint ?b \<noteq> 0" by (simp add: uint_0_iff)
      have "ReadString_loop m addr limit (i + 1) (uint ?b) (buf @ [word_of_int (uint ?b)]) =
              (buf @ [word_of_int (uint ?b)]) @ takeWhile (\<lambda>b. b \<noteq> 0)
                 (map (\<lambda>j. mainMemory m (addr + int j)) [i + 1..<nat limit])"
        using "1.IH" [of "uint ?b"] "1.prems" False r nz' by auto
      then show ?thesis using False "1.prems"(1,2) r u nz nz'
        by (simp add: ReadString_loop.simps [of m addr limit i ch buf] Let_def)
    qed
  qed
qed


text \<open>
  C8 (amended statement). With \<open>addr\<close>, \<open>n\<close> and \<open>fd\<close> the arguments in registers 4, 5 and 6:
  the Read system call returns -1 whenever \<open>fd\<close> does not denote an open file of the
  current thread or \<open>n \<le> 0\<close>, and also when the file yields no byte; otherwise, for
  \<open>n\<close> below \<^verbatim>\<open>INT_MAX\<close> and a buffer address that is not negative, it returns the number
  of bytes copied into the user buffer, which stops at the first address that cannot be
  written. The Write system call returns -1 whenever \<open>fd\<close> is invalid or \<open>n < 0\<close>, and
  also when no byte is taken from the user buffer (\<open>n = 0\<close>, address 0, or a first byte
  of 0); otherwise, for \<open>n\<close> below \<^verbatim>\<open>INT_MAX\<close>, it returns what \<^verbatim>\<open>OpenFile::Write\<close>
  returns for the bytes taken, which are at most \<open>n\<close> and, in a readable buffer, the
  bytes before the first 0 among the first \<open>n\<close>. With a valid \<open>fd\<close> and \<open>n\<close> equal to
  \<^verbatim>\<open>INT_MAX\<close> neither call returns: the allocation of the kernel buffer fails. Nor
  does a call that reaches the copy routine with a negative buffer address: it fails an
  \<^verbatim>\<open>ASSERT\<close>.
\<close>

theorem Read_Write_syscall_results:
  assumes "addr = ReadRegister m 4" and "n = ReadRegister m 5" and "fd = ReadRegister m 6"
  shows "(GetOpenFileEntry tbl fd = None \<or> n \<le> 0 \<longrightarrow>
           (\<exists>m'. ExceptionHandler_Read ofRead m tbl = Inr (m', tbl) \<and> ReadRegister m' 2 = -1))
       \<and> (GetOpenFileEntry tbl fd = Some f \<and> n > 0 \<and> n < INT_MAX \<and> fst (ofRead f n) = [] \<longrightarrow>
           (\<exists>m' tbl'. ExceptionHandler_Read ofRead m tbl = Inr (m', tbl')
              \<and> ReadRegister m' 2 = -1))
       \<and> (GetOpenFileEntry tbl fd = Some f \<and> n > 0 \<and> n < INT_MAX \<and> fst (ofRead f n) \<noteq> []
            \<and> addr \<ge> 0 \<longrightarrow>
           (\<exists>m' tbl' c. ExceptionHandler_Read ofRead m tbl = Inr (m', tbl')
              \<and> ReadRegister m' 2 = int c \<and> c \<le> length (fst (ofRead f n))
              \<and> (\<forall>i<c. writable m (addr + int i)
                         \<and> mainMemory m' (addr + int i) = fst (ofRead f n) ! i)
              \<and> (c < length (fst (ofRead f n)) \<longrightarrow> \<not> writable m (addr + int c))))
       \<and> (GetOpenFileEntry tbl fd = Some f \<and> n > 0 \<and> n < INT_MAX \<and> fst (ofRead f n) \<noteq> []
            \<and> addr < 0 \<longrightarrow>
           ExceptionHandler_Read ofRead m tbl = Inl AssertionFailed)
       \<and> (GetOpenFileEntry tbl fd = Some f \<and> n = INT_MAX \<longrightarrow>
           ExceptionHandler_Read ofRead m tbl = Inl BadAlloc)
       \<and> (GetOpenFileEntry tbl fd = None \<or> n < 0 \<longrightarrow>
           (\<exists>m'. ExceptionHandler_Write ofWrite ch m tbl = Inr (m', tbl)
              \<and> ReadRegister m' 2 = -1))
       \<and> (GetOpenFileEntry tbl fd = Some f \<and> addr \<ge> 0 \<and> n < INT_MAX
            \<and> (n = 0 \<or> addr = 0 \<or> ReadString_loop m addr n 0 ch [] = []) \<longrightarrow>
           (\<exists>m'. ExceptionHandler_Write ofWrite ch m tbl = Inr (m', tbl)
              \<and> ReadRegister m' 2 = -1))
       \<and> (GetOpenFileEntry tbl fd = Some f \<and> n > 0 \<and> n < INT_MAX \<and> addr > 0
            \<and> ReadString_loop m addr n 0 ch [] \<noteq> [] \<longrightarrow>
           (\<exists>m' tbl'. ExceptionHandler_Write ofWrite ch m tbl = Inr (m', tbl')
              \<and> ReadRegister m' 2 =
                  fst (ofWrite f (ReadString_loop m addr n 0 ch [])
                         (int (length (ReadString_loop m addr n 0 ch []))))
              \<and> int (length (ReadString_loop m addr n 0 ch [])) \<le> n))
       \<and> (GetOpenFileEntry tbl fd = Some f \<and> n > 0 \<and> n < INT_MAX \<and> addr > 0
            \<and> (\<forall>i<nat n. readable m (addr + int i))
            \<and> bytes = takeWhile (\<lambda>b. b \<noteq> 0) (map (\<lambda>i. mainMemory m (addr + int i)) [0..<nat n])
            \<longrightarrow>
           (\<exists>m' tbl'. ExceptionHandler_Write ofWrite ch m tbl = Inr (m', tbl')
              \<and> ReadRegister m' 2 =
                  (if bytes = [] then -1 else fst (ofWrite f bytes (int (length bytes))))
              \<and> int (length bytes) \<le> n))
       \<and> (GetOpenFileEntry tbl fd = Some f \<and> n > 0 \<and> n < INT_MAX \<and> addr > 0
            \<and> readable m addr \<and> mainMemory m addr = 0 \<longrightarrow>
           (\<exists>m'. ExceptionHandler_Write ofWrite ch m tbl = Inr (m', tbl)
              \<and> ReadRegister m' 2 = -1))
       \<and> (GetOpenFileEntry tbl fd = Some f \<and> 0 \<le> n \<and> n < INT_MAX \<and> addr < 0 \<longrightarrow>
           ExceptionHandler_Write ofWrite ch m tbl = Inl AssertionFailed)
       \<and> (GetOpenFileEntry tbl fd = Some f \<and> n = INT_MAX \<longrightarrow>
           ExceptionHandler_Write ofWrite ch m tbl = Inl BadAlloc)"
proof -
  have r1: "GetOpenFileEntry tbl fd = None \<or> n \<le> 0 \<longrightarrow>
           (\<exists>m'. ExceptionHandler_Read ofRead m tbl = Inr (m', tbl) \<and> ReadRegister m' 2 = -1)"
    using assms by (auto simp add: ExceptionHandler_Read_def Let_def split: option.splits)
  have r2: "GetOpenFileEntry tbl fd = Some f \<and> n > 0 \<and> n < INT_MAX \<and> fst (ofRead f n) = [] \<longrightarrow>
           (\<exists>m' tbl'. ExceptionHandler_Read ofRead m tbl = Inr (m', tbl')
              \<and> ReadRegister m' 2 = -1)"
    using assms
    by (auto simp add: ExceptionHandler_Read_def Let_def new_char_array_ok split: prod.splits)
  have r3: "GetOpenFileEntry tbl fd = Some f \<and> n > 0 \<and> n < INT_MAX \<and> fst (ofRead f n) \<noteq> []
            \<and> addr \<ge> 0 \<longrightarrow>
           (\<exists>m' tbl' c. ExceptionHandler_Read ofRead m tbl = Inr (m', tbl')
              \<and> ReadRegister m' 2 = int c \<and> c \<le> length (fst (ofRead f n))
              \<and> (\<forall>i<c. writable m (addr + int i)
                         \<and> mainMemory m' (addr + int i) = fst (ofRead f n) ! i)
              \<and> (c < length (fst (ofRead f n)) \<longrightarrow> \<not> writable m (addr + int c)))"
  proof
    assume h: "GetOpenFileEntry tbl fd = Some f \<and> n > 0 \<and> n < INT_MAX \<and> fst (ofRead f n) \<noteq> []
                 \<and> addr \<ge> 0"
    then have a: "new_char_array (n + 1) = Inr ()" by (simp add: new_char_array_ok)
    obtain buf file' where o: "ofRead f n = (buf, file')" by (cases "ofRead f n")
    obtain c m1 where w: "WriteChars_loop m addr buf (int (length buf)) 0 = (c, m1)"
      by (cases "WriteChars_loop m addr buf (int (length buf)) 0")
    from WriteChars_loop_spec [OF w]
    have s: "0 \<le> c" "c \<le> int (length buf)"
      "\<forall>a. mainMemory m1 a = (if addr + int 0 \<le> a \<and> a < addr + c then buf ! nat (a - addr)
                               else mainMemory m a)"
      "\<forall>a. addr + int 0 \<le> a \<and> a < addr + c \<longrightarrow> writable m a"
      "c < int (length buf) \<longrightarrow> \<not> writable m (addr + c)"
      by auto
    let ?m' = "AdvancePC (WriteRegister m1 2 c)"
    have e: "ExceptionHandler_Read ofRead m tbl = Inr (?m', storeOpenFile tbl fd file')"
      using assms h o w a
      by (simp add: ExceptionHandler_Read_def Let_def WriteCharsToUserAddrSpace_def)
    have "ReadRegister ?m' 2 = int (nat c)" using s(1) by simp
    moreover have "nat c \<le> length (fst (ofRead f n))" using s(2) o by simp
    moreover have "\<forall>i<nat c. writable m (addr + int i)
                         \<and> mainMemory ?m' (addr + int i) = fst (ofRead f n) ! i"
      using s(3,4) o by auto
    moreover have "nat c < length (fst (ofRead f n)) \<longrightarrow> \<not> writable m (addr + int (nat c))"
      using s(1,5) o by auto
    ultimately show "\<exists>m' tbl' c. ExceptionHandler_Read ofRead m tbl = Inr (m', tbl')
              \<and> ReadRegister m' 2 = int c \<and> c \<le> length (fst (ofRead f n))
              \<and> (\<forall>i<c. writable m (addr + int i)
                         \<and> mainMemory m' (addr + int i) = fst (ofRead f n) ! i)
              \<and> (c < length (fst (ofRead f n)) \<longrightarrow> \<not> writable m (addr + int c))"
      using e by blast
  qed
  have r4: "GetOpenFileEntry tbl fd = Some f \<and> n = INT_MAX \<longrightarrow>
           ExceptionHandler_Read ofRead m tbl = Inl BadAlloc"
    using assms new_char_array_overflow
    by (auto simp add: ExceptionHandler_Read_def Let_def INT_MAX_def)
  have w1: "GetOpenFileEntry tbl fd = None \<or> n < 0 \<longrightarrow>
           (\<exists>m'. ExceptionHandler_Write ofWrite ch m tbl = Inr (m', tbl)
              \<and> ReadRegister m' 2 = -1)"
    using assms by (auto simp add: ExceptionHandler_Write_def Let_def split: option.splits)
  have w2: "GetOpenFileEntry tbl fd = Some f \<and> addr \<ge> 0 \<and> n < INT_MAX
            \<and> (n = 0 \<or> addr = 0 \<or> ReadString_loop m addr n 0 ch [] = []) \<longrightarrow>
           (\<exists>m'. ExceptionHandler_Write ofWrite ch m tbl = Inr (m', tbl)
              \<and> ReadRegister m' 2 = -1)"
  proof
    assume h: "GetOpenFileEntry tbl fd = Some f \<and> addr \<ge> 0 \<and> n < INT_MAX
            \<and> (n = 0 \<or> addr = 0 \<or> ReadString_loop m addr n 0 ch [] = [])"
    show "\<exists>m'. ExceptionHandler_Write ofWrite ch m tbl = Inr (m', tbl) \<and> ReadRegister m' 2 = -1"
    proof (cases "n < 0")
      case True
      then show ?thesis using w1 by blast
    next
      case False
      then have a: "new_char_array (n + 1) = Inr ()" using h by (simp add: new_char_array_ok)
      show ?thesis using assms h a False
        by (auto simp add: ExceptionHandler_Write_def ReadStringFromUserAddrSpace_def Let_def)
    qed
  qed
  have w3: "GetOpenFileEntry tbl fd = Some f \<and> n > 0 \<and> n < INT_MAX \<and> addr > 0
            \<and> ReadString_loop m addr n 0 ch [] \<noteq> [] \<longrightarrow>
           (\<exists>m' tbl'. ExceptionHandler_Write ofWrite ch m tbl = Inr (m', tbl')
              \<and> ReadRegister m' 2 =
                  fst (ofWrite f (ReadString_loop m addr n 0 ch [])
                         (int (length (ReadString_loop m addr n 0 ch []))))
              \<and> int (length (ReadString_loop m addr n 0 ch [])) \<le> n)"
    using assms ReadString_loop_length [of m addr n 0 ch "[]"]
    by (auto simp add: ExceptionHandler_Write_def ReadStringFromUserAddrSpace_def Let_def
          new_char_array_ok split: prod.splits)
  have w4: "GetOpenFileEntry tbl fd = Some f \<and> n > 0 \<and> n < INT_MAX \<and> addr > 0
            \<and> (\<forall>i<nat n. readable m (addr + int i))
            \<and> bytes = takeWhile (\<lambda>b. b \<noteq> 0) (map (\<lambda>i. mainMemory m (addr + int i)) [0..<nat n])
            \<longrightarrow>
           (\<exists>m' tbl'. ExceptionHandler_Write ofWrite ch m tbl = Inr (m', tbl')
              \<and> ReadRegister m' 2 =
                  (if bytes = [] then -1 else fst (ofWrite f bytes (int (length bytes))))
              \<and> int (length bytes) \<le> n)"
  proof
    assume h: "GetOpenFileEntry tbl fd = Some f \<and> n > 0 \<and> n < INT_MAX \<and> addr > 0
            \<and> (\<forall>i<nat n. readable m (addr + int i))
            \<and> bytes = takeWhile (\<lambda>b. b \<noteq> 0) (map (\<lambda>i. mainMemory m (addr + int i)) [0..<nat n])"
    then have rd: "\<forall>j. 0 \<le> j \<and> int j < n \<longrightarrow> readable m (addr + int j)" by auto
    have l: "ReadString_loop m addr n 0 ch [] = bytes"
      using ReadString_loop_readable [of addr n 0 m ch "[]"] h rd by simp
    have len: "int (length bytes) \<le> n"
      using ReadString_loop_length [of m addr n 0 ch "[]"] h l by simp
    show "\<exists>m' tbl'. ExceptionHandler_Write ofWrite ch m tbl = Inr (m', tbl')
              \<and> ReadRegister m' 2 =
                  (if bytes = [] then -1 else fst (ofWrite f bytes (int (length bytes))))
              \<and> int (length bytes) \<le> n"
    proof (cases "bytes = []")
      case True
      then show ?thesis using w2 h l len by auto
    next
      case False
      then show ?thesis using w3 h l len by auto
    qed
  qed
  have w5: "GetOpenFileEntry tbl fd = Some f \<and> n = INT_MAX \<longrightarrow>
           ExceptionHandler_Write ofWrite ch m tbl = Inl BadAlloc"
    using assms new_char_array_overflow
    by (auto simp add: ExceptionHandler_Write_def Let_def INT_MAX_def)
  have r5: "GetOpenFileEntry tbl fd = Some f \<and> n > 0 \<and> n < INT_MAX \<and> fst (ofRead f n) \<noteq> []
            \<and> addr < 0 \<longrightarrow>
           ExceptionHandler_Read ofRead m tbl = Inl AssertionFailed"
    using assms
    by (auto simp add: ExceptionHandler_Read_def Let_def new_char_array_ok
          WriteCharsToUserAddrSpace_def split: prod.splits)
  have w6: "GetOpenFileEntry tbl fd = Some f \<and> n > 0 \<and> n < INT_MAX \<and> addr > 0
            \<and> readable m addr \<and> mainMemory m addr = 0 \<longrightarrow>
           (\<exists>m'. ExceptionHandler_Write ofWrite ch m tbl = Inr (m', tbl)
              \<and> ReadRegister m' 2 = -1)"
  proof
    assume h: "GetOpenFileEntry tbl fd = Some f \<and> n > 0 \<and> n < INT_MAX \<and> addr > 0
            \<and> readable m addr \<and> mainMemory m addr = 0"
    then have "ReadString_loop m addr n 0 ch [] = []"
      by (simp add: ReadString_loop.simps [of m addr n 0 ch "[]"] ReadMem_def Let_def)
    then show "\<exists>m'. ExceptionHandler_Write ofWrite ch m tbl = Inr (m', tbl)
              \<and> ReadRegister m' 2 = -1"
      using w2 h by auto
  qed
  have w7: "GetOpenFileEntry tbl fd = Some f \<and> 0 \<le> n \<and> n < INT_MAX \<and> addr < 0 \<longrightarrow>
           ExceptionHandler_Write ofWrite ch m tbl = Inl AssertionFailed"
    using assms
    by (auto simp add: ExceptionHandler_Write_def Let_def new_char_array_ok
          ReadStringFromUserAddrSpace_def)
  from r1 r2 r3 r4 r5 w1 w2 w3 w4 w5 w6 w7 show ?thesis by blast
qed

text \<open>
  C8 (counterexample). The original statement fails for Write with a valid descriptor
  and \<open>n = 0\<close>: the call returns -1 although \<open>n\<close> is not negative, and the file is
  untouched (no byte was written, so the number of bytes written is 0). It also fails
  for \<open>n\<close> equal to \<^verbatim>\<open>INT_MAX\<close> with a valid descriptor, and for a negative buffer
  address with a valid descriptor and a positive \<open>n\<close>, where neither call returns a value.
\<close>

theorem syscall_result_counterexample:
  "GetOpenFileEntry oneFile 0 \<noteq> None
   \<and> \<not> ReadRegister (userMachine 100 0 0) 5 < 0
   \<and> map_sum id (\<lambda>(m', tbl'). (ReadRegister m' 2, tbl'))
        (ExceptionHandler_Write memWrite 0 (userMachine 100 0 0) oneFile) = Inr (-1, oneFile)
   \<and> \<not> ReadRegister (userMachine 100 2147483647 0) 5 \<le> 0
   \<and> map_sum id (\<lambda>(m', tbl'). ReadRegister m' 2)
        (ExceptionHandler_Read memRead (userMachine 100 2147483647 0) oneFile) = Inl BadAlloc
   \<and> map_sum id (\<lambda>(m', tbl'). ReadRegister m' 2)
        (ExceptionHandler_Write memWrite 0 (userMachine 100 2147483647 0) oneFile) = Inl BadAlloc
   \<and> map_sum id (\<lambda>(m', tbl'). ReadRegister m' 2)
        (ExceptionHandler_Read memRead (userMachine (-4) 2 0) oneFile) = Inl AssertionFailed
   \<and> map_sum id (\<lambda>(m', tbl'). ReadRegister m' 2)
        (ExceptionHandler_Write memWrite 0 (userMachine (-4) 2 0) oneFile) = Inl AssertionFailed"
  by code_simp

lemma userMachine_registers:
  "ReadRegister (userMachine a n fd) 4 = a" "ReadRegister (userMachine a n fd) 5 = n"
  "ReadRegister (userMachine a n fd) 6 = fd"
  by (simp_all add: userMachine_def ReadRegister_def)

lemma userMachine_writable: "writable (userMachine a n fd) x"
  by (simp add: userMachine_def)

theorem Read_Write_syscall_results_witness:
  "(\<exists>m'. ExceptionHandler_Read memRead (userMachine 100 2 3) oneFile = Inr (m', oneFile)
         \<and> ReadRegister m' 2 = -1)
   \<and> (\<exists>m' tbl'. ExceptionHandler_Read memRead (userMachine 100 2 0) oneFileAtEnd = Inr (m', tbl')
         \<and> ReadRegister m' 2 = -1)
   \<and> (\<exists>m' tbl'. ExceptionHandler_Read memRead (userMachine 100 2 0) oneFile = Inr (m', tbl')
         \<and> ReadRegister m' 2 = 2 \<and> mainMemory m' 100 = 65 \<and> mainMemory m' 101 = 66)
   \<and> (\<exists>m'. ExceptionHandler_Write memWrite 0 (userMachine 100 (-1) 0) oneFile = Inr (m', oneFile)
         \<and> ReadRegister m' 2 = -1)
   \<and> (\<exists>m'. ExceptionHandler_Write memWrite 0 (userMachine 100 0 0) oneFile = Inr (m', oneFile)
         \<and> ReadRegister m' 2 = -1)
   \<and> (\<exists>m' tbl'. ExceptionHandler_Write memWrite 0 (userMachine 100 2 0) oneFile = Inr (m', tbl')
         \<and> ReadRegister m' 2 = 2)
   \<and> (\<exists>m' tbl'. ExceptionHandler_Write memWrite 0 (userMachine 100 5 0) oneFile = Inr (m', tbl')
         \<and> ReadRegister m' 2 = 2)
   \<and> ExceptionHandler_Read memRead (userMachine 100 2147483647 0) oneFile = Inl BadAlloc
   \<and> ExceptionHandler_Write memWrite 0 (userMachine 100 2147483647 0) oneFile = Inl BadAlloc
   \<and> ExceptionHandler_Read memRead (userMachine (-4) 2 0) oneFile = Inl AssertionFailed
   \<and> ExceptionHandler_Write memWrite 0 (userMachine (-4) 2 0) oneFile = Inl AssertionFailed
   \<and> (\<exists>m'. ExceptionHandler_Write memWrite 0 (userMachine 200 2 0) oneFile = Inr (m', oneFile)
         \<and> ReadRegister m' 2 = -1)"
proof -
  have im: "(2::int) < INT_MAX" "(5::int) < INT_MAX" "(0::int) < INT_MAX" "(-1::int) < INT_MAX"
    "(2147483647::int) = INT_MAX"
    by (simp_all add: INT_MAX_def)
  have by5: "takeWhile (\<lambda>b. b \<noteq> 0)
               (map (\<lambda>i. mainMemory (userMachine 100 5 0) (100 + int i)) [0..<nat 5]) = [72, 105]"
    by code_simp
  have rdb: "\<forall>i<nat 5. readable (userMachine 100 5 0) (100 + int i)"
    by (simp add: userMachine_def)
  have g0: "GetOpenFileEntry oneFile 0 = Some ([65, 66, 67], 0)" by code_simp
  have g3: "GetOpenFileEntry oneFile 3 = None" by code_simp
  have ge: "GetOpenFileEntry oneFileAtEnd 0 = Some ([65, 66, 67], 3)" by code_simp
  have rs: "ReadString_loop (userMachine 100 2 0) 100 2 0 0 [] = [72, 105]" by code_simp
  have rd: "fst (memRead ([65, 66, 67], 0) 2) = [65, 66]" by code_simp
  have re: "fst (memRead ([65, 66, 67], 3) 2) = []" by code_simp
  have wr: "fst (memWrite ([65, 66, 67], 0) [72, 105] 2) = 2" by code_simp
  note regs = userMachine_registers [symmetric]
  have c1: "\<exists>m'. ExceptionHandler_Read memRead (userMachine 100 2 3) oneFile = Inr (m', oneFile)
         \<and> ReadRegister m' 2 = -1"
    using Read_Write_syscall_results [where m = "userMachine 100 (2) 3" and addr = 100 and n = "2"
        and fd = 3 and tbl = oneFile and f = "([65, 66, 67], 0)" and ofRead = memRead and ofWrite = memWrite
        and ch = 0 and bytes = "[]", OF regs(1) regs(2) regs(3)] g3
    by blast
  have c2: "\<exists>m' tbl'. ExceptionHandler_Read memRead (userMachine 100 2 0) oneFileAtEnd = Inr (m', tbl')
         \<and> ReadRegister m' 2 = -1"
    using Read_Write_syscall_results [where m = "userMachine 100 (2) 0" and addr = 100 and n = "2"
        and fd = 0 and tbl = oneFileAtEnd and f = "([65, 66, 67], 3)" and ofRead = memRead and ofWrite = memWrite
        and ch = 0 and bytes = "[]", OF regs(1) regs(2) regs(3)] ge re im
    by simp
  have "\<exists>m' tbl' c. ExceptionHandler_Read memRead (userMachine 100 2 0) oneFile = Inr (m', tbl')
              \<and> ReadRegister m' 2 = int c \<and> c \<le> length [65, 66 :: 8 word]
              \<and> (\<forall>i<c. writable (userMachine 100 2 0) (100 + int i)
                         \<and> mainMemory m' (100 + int i) = [65, 66] ! i)
              \<and> (c < length [65, 66 :: 8 word] \<longrightarrow> \<not> writable (userMachine 100 2 0) (100 + int c))"
    using Read_Write_syscall_results [where m = "userMachine 100 (2) 0" and addr = 100 and n = "2"
        and fd = 0 and tbl = oneFile and f = "([65, 66, 67], 0)" and ofRead = memRead and ofWrite = memWrite
        and ch = 0 and bytes = "[]", OF regs(1) regs(2) regs(3)] g0 rd im
    by simp
  then obtain m' tbl' c where
    e: "ExceptionHandler_Read memRead (userMachine 100 2 0) oneFile = Inr (m', tbl')"
    and r: "ReadRegister m' 2 = int c" and le: "c \<le> 2"
    and mem: "\<forall>i<c. mainMemory m' (100 + int i) = [65, 66] ! i"
    and stop: "c < 2 \<longrightarrow> \<not> writable (userMachine 100 2 0) (100 + int c)"
    by auto
  have c2': "c = 2" using le stop userMachine_writable by auto
  have "0 < c" "1 < c" using c2' by simp_all
  then have "mainMemory m' (100 + int 0) = [65, 66] ! 0" "mainMemory m' (100 + int 1) = [65, 66] ! 1"
    using mem by blast+
  then have "mainMemory m' 100 = 65" "mainMemory m' 101 = 66" by simp_all
  then have c3: "\<exists>m' tbl'. ExceptionHandler_Read memRead (userMachine 100 2 0) oneFile = Inr (m', tbl')
         \<and> ReadRegister m' 2 = 2 \<and> mainMemory m' 100 = 65 \<and> mainMemory m' 101 = 66"
    using e r c2' by auto
  have c4: "\<exists>m'. ExceptionHandler_Write memWrite 0 (userMachine 100 (-1) 0) oneFile = Inr (m', oneFile)
         \<and> ReadRegister m' 2 = -1"
    using Read_Write_syscall_results [where m = "userMachine 100 (-1) 0" and addr = 100 and n = "-1"
        and fd = 0 and tbl = oneFile and f = "([65, 66, 67], 0)" and ofRead = memRead and ofWrite = memWrite
        and ch = 0 and bytes = "[]", OF regs(1) regs(2) regs(3)]
    by simp
  have c5: "\<exists>m'. ExceptionHandler_Write memWrite 0 (userMachine 100 0 0) oneFile = Inr (m', oneFile)
         \<and> ReadRegister m' 2 = -1"
    using Read_Write_syscall_results [where m = "userMachine 100 (0) 0" and addr = 100 and n = "0"
        and fd = 0 and tbl = oneFile and f = "([65, 66, 67], 0)" and ofRead = memRead and ofWrite = memWrite
        and ch = 0 and bytes = "[]", OF regs(1) regs(2) regs(3)] g0 im
    by simp
  have c6: "\<exists>m' tbl'. ExceptionHandler_Write memWrite 0 (userMachine 100 2 0) oneFile = Inr (m', tbl')
         \<and> ReadRegister m' 2 = 2"
    using Read_Write_syscall_results [where m = "userMachine 100 (2) 0" and addr = 100 and n = "2"
        and fd = 0 and tbl = oneFile and f = "([65, 66, 67], 0)" and ofRead = memRead and ofWrite = memWrite
        and ch = 0 and bytes = "[]", OF regs(1) regs(2) regs(3)] g0 rs wr im
    by simp
  have c7: "\<exists>m' tbl'. ExceptionHandler_Write memWrite 0 (userMachine 100 5 0) oneFile = Inr (m', tbl')
         \<and> ReadRegister m' 2 = 2"
    using Read_Write_syscall_results [where m = "userMachine 100 5 0" and addr = 100 and n = 5
        and fd = 0 and tbl = oneFile and f = "([65, 66, 67], 0)" and ofRead = memRead and ofWrite = memWrite
        and ch = 0 and bytes = "[72, 105]", OF regs(1) regs(2) regs(3)] g0 wr im by5 rdb
    by simp
  have c8: "ExceptionHandler_Read memRead (userMachine 100 2147483647 0) oneFile = Inl BadAlloc"
    using Read_Write_syscall_results [where m = "userMachine 100 2147483647 0" and addr = 100
        and n = 2147483647 and fd = 0 and tbl = oneFile and f = "([65, 66, 67], 0)"
        and ofRead = memRead and ofWrite = memWrite and ch = 0 and bytes = "[]",
        OF regs(1) regs(2) regs(3)] g0 im(5)
    by simp
  have c9: "ExceptionHandler_Write memWrite 0 (userMachine 100 2147483647 0) oneFile = Inl BadAlloc"
    using Read_Write_syscall_results [where m = "userMachine 100 2147483647 0" and addr = 100
        and n = 2147483647 and fd = 0 and tbl = oneFile and f = "([65, 66, 67], 0)"
        and ofRead = memRead and ofWrite = memWrite and ch = 0 and bytes = "[]",
        OF regs(1) regs(2) regs(3)] g0 im(5)
    by simp
  have c10: "ExceptionHandler_Read memRead (userMachine (-4) 2 0) oneFile = Inl AssertionFailed"
    using Read_Write_syscall_results [where m = "userMachine (-4) 2 0" and addr = "-4"
        and n = 2 and fd = 0 and tbl = oneFile and f = "([65, 66, 67], 0)"
        and ofRead = memRead and ofWrite = memWrite and ch = 0 and bytes = "[]",
        OF regs(1) regs(2) regs(3)] g0 rd im
    by simp
  have c11: "ExceptionHandler_Write memWrite 0 (userMachine (-4) 2 0) oneFile = Inl AssertionFailed"
    using Read_Write_syscall_results [where m = "userMachine (-4) 2 0" and addr = "-4"
        and n = 2 and fd = 0 and tbl = oneFile and f = "([65, 66, 67], 0)"
        and ofRead = memRead and ofWrite = memWrite and ch = 0 and bytes = "[]",
        OF regs(1) regs(2) regs(3)] g0 im
    by simp
  have z: "readable (userMachine 200 2 0) 200" "mainMemory (userMachine 200 2 0) 200 = 0"
    by (simp_all add: userMachine_def)
  have c12: "\<exists>m'. ExceptionHandler_Write memWrite 0 (userMachine 200 2 0) oneFile = Inr (m', oneFile)
         \<and> ReadRegister m' 2 = -1"
    using Read_Write_syscall_results [where m = "userMachine 200 2 0" and addr = 200
        and n = 2 and fd = 0 and tbl = oneFile and f = "([65, 66, 67], 0)"
        and ofRead = memRead and ofWrite = memWrite and ch = 0 and bytes = "[]",
        OF regs(1) regs(2) regs(3)] g0 im z
    by simp
  from c1 c2 c3 c4 c5 c6 c7 c8 c9 c10 c11 c12 show ?thesis by blast
qed


subsection \<open>Allocation and file length\<close>

lemma Allocate_FileLength:
  "Allocate this freeMap n = (True, h, freeMap') \<Longrightarrow> nextFileHeader this = None \<Longrightarrow> 0 < n \<Longrightarrow>
     numBytes h = n \<and> n \<le> FileLength h
     \<and> (MaxFileSize < n \<longrightarrow> nextFileHeader h \<noteq> None \<and> n < FileLength h)
     \<and> (n \<le> MaxFileSize \<longrightarrow> nextFileHeader h = None \<and> FileLength h = n)"
proof (induction this freeMap n arbitrary: h freeMap' rule: Allocate.induct)
  case (1 this freeMap fileSize)
  let ?ns = "min (divRoundUp fileSize SectorSize) NumDirect"
  obtain ok sectors fm1 where a: "Allocate_sectors ?ns (dataSectors this) freeMap 0 = (ok, sectors, fm1)"
    by (cases "Allocate_sectors ?ns (dataSectors this) freeMap 0") auto
  have nc: "\<not> NumClear freeMap < ?ns" and ok: "ok"
    using "1.prems"(1) a
    by (auto simp add: Allocate.simps [of this freeMap fileSize] Let_def
          split: if_splits bool.splits prod.splits)
  show ?case
  proof (cases "divRoundUp fileSize SectorSize > NumDirect")
    case False
    then have "fileSize \<le> MaxFileSize" using "1.prems"(3)
      by (auto simp: divRoundUp_def C_div_def C_mod_def SectorSize_def NumDirect_def MaxFileSize_def split: if_splits)
    moreover have "h = FileHeader fileSize ?ns sectors (nextFileHeaderSector this) (nextFileHeader this)"
      using "1.prems"(1) a nc ok False
      by (simp add: Allocate.simps [of this freeMap fileSize] Let_def)
    ultimately show ?thesis using "1.prems"(2) by simp
  next
    case True
    then have big: "MaxFileSize < fileSize" using "1.prems"(3)
      by (auto simp: divRoundUp_def C_div_def C_mod_def SectorSize_def NumDirect_def MaxFileSize_def split: if_splits)
    obtain s fm2 where f: "FindAndSet fm1 = (s, fm2)" by (cases "FindAndSet fm1") auto
    obtain r nxt fm3 where n: "Allocate newFileHeader fm2 (fileSize - MaxFileSize) = (r, nxt, fm3)"
      by (cases "Allocate newFileHeader fm2 (fileSize - MaxFileSize)") auto
    have s1: "s \<noteq> -1" and h: "h = FileHeader fileSize ?ns sectors s (Some nxt)" and r: "r"
      using "1.prems"(1) a nc ok True f n
      by (auto simp add: Allocate.simps [of this freeMap fileSize] Let_def
            split: if_splits bool.splits prod.splits)
    have a': "(ok, sectors, fm1) =
        Allocate_sectors ?ns (dataSectors (FileHeader fileSize ?ns (dataSectors this)
           (nextFileHeaderSector this) (nextFileHeader this))) freeMap 0"
      using a by simp
    have ok': "ok = True" using ok by simp
    have n': "Allocate newFileHeader fm2 (fileSize - MaxFileSize) = (True, nxt, fm3)"
      using n r by simp
    have fresh: "nextFileHeader newFileHeader = None" by (simp add: newFileHeader_def)
    have pos: "0 < fileSize - MaxFileSize" using big by simp
    have "numBytes nxt = fileSize - MaxFileSize \<and> fileSize - MaxFileSize \<le> FileLength nxt"
      using "1.IH" [OF refl refl refl nc a' ok' refl True refl f [symmetric] s1 n' fresh pos]
      by simp
    then show ?thesis using h big by simp
  qed
qed

subsection \<open>Writing a header back and fetching it\<close>

lemma uint_byte: "uint (word_of_int y :: 8 word) = y mod 256"
  by (simp add: uint_word_of_int)

lemma le_bytes_mod:
  "(x::int) mod 256 + 256 * ((x div 256) mod 256 + 256 * ((x div 65536) mod 256
      + 256 * ((x div 16777216) mod 256 + 256 * 0))) = x mod 4294967296"
proof -
  have a: "x div 65536 = (x div 256) div 256" "x div 16777216 = ((x div 256) div 256) div 256"
    by (simp_all add: zdiv_zmult2_eq [symmetric])
  have "x mod 4294967296 = x mod (256 * 16777216)" by simp
  also have "\<dots> = 256 * ((x div 256) mod 16777216) + x mod 256"
    by (rule zmod_zmult2_eq) simp
  also have "(x div 256) mod 16777216 = (x div 256) mod (256 * 65536)" by simp
  also have "\<dots> = 256 * ((x div 256 div 256) mod 65536) + (x div 256) mod 256"
    by (rule zmod_zmult2_eq) simp
  also have "(x div 256 div 256) mod 65536 = (x div 256 div 256) mod (256 * 256)" by simp
  also have "\<dots> = 256 * ((x div 256 div 256 div 256) mod 256) + (x div 256 div 256) mod 256"
    by (rule zmod_zmult2_eq) simp
  finally show ?thesis unfolding a by (simp add: algebra_simps)
qed

lemma signed_of_mod:
  assumes "is_int32 x"
  shows "x mod 4294967296 = (if x < 0 then x + 4294967296 else x)"
proof (cases "x < 0")
  case False
  then have "x mod 4294967296 = x" using assms by (intro mod_pos_pos_trivial) (simp_all add: is_int32_def)
  then show ?thesis using False by simp
next
  case True
  have "(x + 4294967296) mod 4294967296 = x + 4294967296"
    using assms True by (intro mod_pos_pos_trivial) (simp_all add: is_int32_def)
  then show ?thesis using True by simp
qed

lemma length_int_bytes [simp]: "length (int_bytes x) = 4"
  by (simp add: int_bytes_def)

lemma foldr_int_bytes:
  "foldr (\<lambda>b acc. uint b + 256 * acc) (int_bytes x) 0 = x mod 4294967296"
proof -
  have "foldr (\<lambda>b acc. uint b + 256 * acc) (int_bytes x) 0 =
     x mod 256 + 256 * ((x div 256) mod 256 + 256 * ((x div 65536) mod 256
      + 256 * ((x div 16777216) mod 256 + 256 * 0)))"
    by (simp only: int_bytes_def foldr.simps o_apply id_apply uint_byte)
  then show ?thesis by (simp only: le_bytes_mod)
qed

lemma bytes_int_int_bytes:
  assumes "is_int32 x"
  shows "bytes_int (int_bytes x @ rest) = x"
proof (cases "x < 0")
  case True
  then show ?thesis using assms
    by (simp add: bytes_int_def foldr_int_bytes signed_of_mod Let_def is_int32_def)
next
  case False
  then show ?thesis using assms
    by (simp add: bytes_int_def foldr_int_bytes signed_of_mod Let_def is_int32_def)
qed

lemma length_concat_int_bytes [simp]: "length (concat (map int_bytes xs)) = 4 * length xs"
  by (induction xs) auto

lemma ints_from_concat:
  "list_all is_int32 xs \<Longrightarrow> ints_from (length xs) (concat (map int_bytes xs) @ rest) = xs"
proof (induction xs)
  case Nil
  then show ?case by simp
next
  case (Cons x xs)
  have "take 4 (int_bytes x @ concat (map int_bytes xs) @ rest) = int_bytes x" by simp
  moreover have "bytes_int (int_bytes x @ []) = x" using Cons.prems by (intro bytes_int_int_bytes) simp
  ultimately show ?case using Cons by simp
qed

lemma WriteBack_buf_layout:
  assumes "0 \<le> ns" "ns \<le> NumDirect" "length ds = nat NumDirect"
  shows "WriteBack_buf (FileHeader nb ns ds nx nh) =
     int_bytes nb @ int_bytes ns @ int_bytes nx
       @ concat (map int_bytes (take (nat ns) ds))
       @ replicate (nat SectorSize - 12 - 4 * nat ns) 0"
proof -
  have n: "nat ns \<le> 29" "length ds = 29" using assms by (simp_all add: NumDirect_def SectorSize_def)
  have l: "length (take (nat ns) ds) = nat ns" using n by simp
  show ?thesis
    using n l by (simp add: WriteBack_buf_def bcopy_into_def Let_def SectorSize_def
          replicate_add [symmetric] del: replicate_add)
qed

lemma sameStored_storedForm: "wellFormed h \<Longrightarrow> sameStored h (storedForm h)"
proof (induction h)
  case (FileHeader nb ns ds nx nh)
  then show ?case by (cases nh) (auto simp add: NumDirect_def SectorSize_def)
qed

lemma FetchFrom_decode:
  assumes "0 \<le> ns" "ns \<le> NumDirect" "length ds = nat NumDirect"
    and "is_int32 nb" "is_int32 nx" "list_all is_int32 (take (nat ns) ds)"
    and "buf = WriteBack_buf (FileHeader nb ns ds nx nh)"
  shows "bytes_int (take 4 buf) = nb" "bytes_int (take 4 (drop 4 buf)) = ns"
    "bytes_int (take 4 (drop 8 buf)) = nx"
    "ints_from (nat ns) (drop 12 buf) = take (nat ns) ds"
proof -
  let ?tail = "concat (map int_bytes (take (nat ns) ds)) @ replicate (nat SectorSize - 12 - 4 * nat ns) 0"
  have b: "buf = int_bytes nb @ int_bytes ns @ int_bytes nx @ ?tail"
    using assms(1-3,7) WriteBack_buf_layout by simp
  have i: "is_int32 ns" using assms(1,2) by (simp add: is_int32_def NumDirect_def SectorSize_def)
  show "bytes_int (take 4 buf) = nb"
    using bytes_int_int_bytes [OF assms(4), of "[]"] by (simp add: b)
  show "bytes_int (take 4 (drop 4 buf)) = ns"
    using bytes_int_int_bytes [OF i, of "[]"] by (simp add: b)
  show "bytes_int (take 4 (drop 8 buf)) = nx"
    using bytes_int_int_bytes [OF assms(5), of "[]"] by (simp add: b)
  have l: "length (take (nat ns) ds) = nat ns"
    using assms(1-3) by simp
  show "ints_from (nat ns) (drop 12 buf) = take (nat ns) ds"
    using ints_from_concat [OF assms(6), of "replicate (nat SectorSize - 12 - 4 * nat ns) 0"] l
    by (simp add: b)
qed

lemma chainHeaders_layout:
  "wellFormed h \<Longrightarrow> map WriteBack_buf (chainHeaders h) = map sectorLayout (chainHeaders h)"
proof (induction h)
  case (FileHeader nb ns ds nx nh)
  have wf: "0 \<le> ns" "ns \<le> NumDirect" "length ds = nat NumDirect"
    using FileHeader.prems(1) by (cases nh; simp)+
  have "WriteBack_buf (FileHeader nb ns ds nx nh) = sectorLayout (FileHeader nb ns ds nx nh)"
    using WriteBack_buf_layout [OF wf] by (simp add: sectorLayout_def)
  then show ?case using FileHeader by (cases nh) simp_all
qed

lemma storedForm_fields:
  "numBytes (storedForm h) = numBytes h" "numSectors (storedForm h) = numSectors h"
  "nextFileHeaderSector (storedForm h) = nextFileHeaderSector h"
  "chainSectors (storedForm h) = chainSectors h"
  "length (chainHeaders (storedForm h)) = length (chainHeaders h)"
  by (induction h rule: storedForm.induct) simp_all

lemma FetchFrom_written:
  assumes "0 \<le> ns" "ns \<le> NumDirect" "length ds = nat NumDirect"
    and "is_int32 nb" "is_int32 nx" "list_all is_int32 (take (nat ns) ds)"
    and "disk sector = WriteBack_buf (FileHeader nb ns ds nx nh)"
  shows "FetchFrom disk newFileHeader sector =
     (if nx \<noteq> -1
      then Option.bind (FetchFrom disk newFileHeader nx)
             (\<lambda>r. case r of
                     Inl e \<Rightarrow> Some (Inl e)
                   | Inr next \<Rightarrow>
                       Some (Inr (FileHeader nb ns
                          (take (nat ns) ds @ replicate (nat NumDirect - nat ns) 0) nx (Some next))))
      else Some (Inr (FileHeader nb ns
                  (take (nat ns) ds @ replicate (nat NumDirect - nat ns) 0) nx None)))"
proof -
  note d = FetchFrom_decode [OF assms(1-6) assms(7)]
  show ?thesis
    using assms(1,2)
    by (subst FetchFrom.simps) (simp add: d Let_def newFileHeader_def)
qed

lemma WriteBack_FetchFrom:
  "wellFormed h \<Longrightarrow> distinct (sector # chainSectors h) \<Longrightarrow>
     \<exists>disk'. WriteBack disk h sector = Inr disk'
       \<and> (\<forall>s. s \<notin> set (sector # chainSectors h) \<longrightarrow> disk' s = disk s)
       \<and> map disk' (sector # chainSectors h) = map WriteBack_buf (chainHeaders h)
       \<and> FetchFrom disk' newFileHeader sector = Some (Inr (storedForm h))"
proof (induction h arbitrary: disk sector)
  case (FileHeader nb ns ds nx nh)
  let ?h = "FileHeader nb ns ds nx nh"
  let ?disk1 = "disk(sector := WriteBack_buf ?h)"
  have wf: "0 \<le> ns" "ns \<le> NumDirect" "length ds = nat NumDirect" "is_int32 nb"
    "list_all is_int32 (take (nat ns) ds)"
    using FileHeader.prems(1) by (cases nh; simp)+
  show ?case
  proof (cases nh)
    case None
    then have nx: "nx = -1" using FileHeader.prems(1) by simp
    have i: "is_int32 nx" using nx by (simp add: is_int32_def)
    have w: "WriteBack disk ?h sector = Inr ?disk1" using wf nx by simp
    have "FetchFrom ?disk1 newFileHeader sector = Some (Inr (storedForm ?h))"
      using FetchFrom_written [where disk = ?disk1 and sector = sector and nh = nh, OF wf(1-4) i wf(5)] nx None
      by simp
    then show ?thesis using w None by simp
  next
    case (Some h2)
    then have nx: "nx \<noteq> -1" "is_int32 nx" and wf2: "wellFormed h2"
      using FileHeader.prems(1) by simp_all
    have d2: "distinct (nx # chainSectors h2)" and ne: "sector \<notin> set (nx # chainSectors h2)"
      using FileHeader.prems(2) Some by simp_all
    have "h2 \<in> set_option nh" using Some by simp
    from FileHeader.IH [OF this wf2 d2, of ?disk1] obtain disk' where
      w2: "WriteBack ?disk1 h2 nx = Inr disk'"
      and fr: "\<forall>s. s \<notin> set (nx # chainSectors h2) \<longrightarrow> disk' s = ?disk1 s"
      and im: "map disk' (nx # chainSectors h2) = map WriteBack_buf (chainHeaders h2)"
      and f2: "FetchFrom disk' newFileHeader nx = Some (Inr (storedForm h2))"
      by blast
    have w: "WriteBack disk ?h sector = Inr disk'" using wf nx w2 Some by simp
    have here: "disk' sector = WriteBack_buf ?h" using fr ne by simp
    have other: "\<forall>s. s \<notin> set (sector # chainSectors ?h) \<longrightarrow> disk' s = disk s"
      using fr Some by simp
    have "FetchFrom disk' newFileHeader sector = Some (Inr (storedForm ?h))"
      using FetchFrom_written [where disk = disk' and sector = sector, OF wf(1-4) nx(2) wf(5) here]
        nx(1) f2 Some
      by simp
    moreover have "map disk' (sector # chainSectors ?h) = map WriteBack_buf (chainHeaders ?h)"
      using here im Some by simp
    ultimately show ?thesis using w other by blast
  qed
qed

subsection \<open>Headers built by Allocate are well formed\<close>

lemma firstClear_Some:
  "firstClear bs i = Some j \<Longrightarrow> i \<le> j \<and> j - i < length bs \<and> \<not> bs ! (j - i)"
proof (induction bs arbitrary: i)
  case Nil
  then show ?case by simp
next
  case (Cons b bs)
  show ?case
  proof (cases b)
    case False
    then show ?thesis using Cons.prems by simp
  next
    case True
    then have "firstClear bs (i + 1) = Some j" using Cons.prems by simp
    from Cons.IH [OF this] have "i + 1 \<le> j" "j - (i + 1) < length bs" "\<not> bs ! (j - (i + 1))"
      by simp_all
    then show ?thesis by (simp add: nth_Cons')
  qed
qed

lemma FindAndSet_found:
  assumes "FindAndSet freeMap = (s, freeMap')" and "s \<noteq> -1"
  shows "0 \<le> s \<and> nat s < length freeMap \<and> \<not> freeMap ! nat s
         \<and> freeMap' = freeMap[nat s := True]"
proof (cases "firstClear freeMap 0")
  case None
  then show ?thesis using assms by (simp add: FindAndSet_def)
next
  case (Some j)
  then show ?thesis using assms firstClear_Some [OF Some] by (auto simp add: FindAndSet_def)
qed

lemma claimed_nil [simp]: "claimed freeMap freeMap []"
  by (simp add: claimed_def)

lemma claimed_step:
  assumes f: "FindAndSet freeMap = (s, freeMap1)" and s: "s \<noteq> -1"
    and c: "claimed freeMap1 freeMap2 ss"
  shows "claimed freeMap freeMap2 (s # ss)"
proof -
  from FindAndSet_found [OF f s] have a: "0 \<le> s" "nat s < length freeMap" "\<not> freeMap ! nat s"
    "freeMap1 = freeMap[nat s := True]" by simp_all
  have l: "length freeMap1 = length freeMap" using a by simp
  have set1: "freeMap1 ! nat s" using a by simp
  have mono: "\<forall>i < length freeMap. freeMap ! i \<longrightarrow> freeMap1 ! i"
    using a by (auto simp add: nth_list_update)
  have ns: "s \<notin> set ss"
  proof
    assume "s \<in> set ss"
    then have "\<not> freeMap1 ! nat s" using c by (auto simp add: claimed_def)
    then show False using set1 by simp
  qed
  have each: "\<forall>x \<in> set ss. 0 \<le> x \<and> nat x < length freeMap \<and> \<not> freeMap ! nat x \<and> freeMap2 ! nat x"
  proof
    fix x assume x: "x \<in> set ss"
    then have h: "0 \<le> x" "nat x < length freeMap1" "\<not> freeMap1 ! nat x" "freeMap2 ! nat x"
      using c by (auto simp add: claimed_def)
    have "\<not> freeMap ! nat x" using h(2,3) mono l by auto
    then show "0 \<le> x \<and> nat x < length freeMap \<and> \<not> freeMap ! nat x \<and> freeMap2 ! nat x"
      using h l by simp
  qed
  have s2: "freeMap2 ! nat s" using c set1 a(2) l by (auto simp add: claimed_def)
  have m2: "\<forall>i < length freeMap. freeMap ! i \<longrightarrow> freeMap2 ! i"
    using c mono l by (auto simp add: claimed_def)
  show ?thesis
    using c a(1-3) ns each s2 m2 l by (auto simp add: claimed_def)
qed

lemma claimed_append:
  assumes "claimed fm0 fm1 xs" and "claimed fm1 fm2 ys"
  shows "claimed fm0 fm2 (xs @ ys)"
proof -
  have l: "length fm1 = length fm0" "length fm2 = length fm1" using assms by (auto simp: claimed_def)
  have disj: "set xs \<inter> set ys = {}"
  proof (rule ccontr)
    assume "set xs \<inter> set ys \<noteq> {}"
    then obtain x where "x \<in> set xs" "x \<in> set ys" by auto
    then have "fm1 ! nat x" "\<not> fm1 ! nat x" using assms by (auto simp: claimed_def)
    then show False by simp
  qed
  have a: "\<forall>s \<in> set xs. fm2 ! nat s" using assms l by (auto simp: claimed_def)
  have b: "\<forall>s \<in> set ys. 0 \<le> s \<and> nat s < length fm0 \<and> \<not> fm0 ! nat s"
    using assms l by (auto simp: claimed_def)
  show ?thesis using assms l disj a b by (auto simp: claimed_def)
qed

lemma chainSectors_subseq:
  "distinct (allSectors h) \<Longrightarrow> distinct (chainSectors h) \<and> set (chainSectors h) \<subseteq> set (allSectors h)"
proof (induction h rule: allSectors.induct)
  case (1 nb ns ds nx)
  then show ?case by simp
next
  case (2 nb ns ds nx "next")
  then show ?case by auto
qed

lemma Allocate_sectors_spec:
  "Allocate_sectors n ds fm i = (True, ds', fm') \<Longrightarrow> n \<le> int (length ds) \<Longrightarrow>
     length ds' = length ds \<and> take i ds' = take i ds
     \<and> claimed fm fm' (take (nat n - i) (drop i ds'))"
proof (induction n ds fm i arbitrary: ds' fm' rule: Allocate_sectors.induct)
  case (1 n ds fm i)
  show ?case
  proof (cases "int i < n")
    case False
    then have "ds' = ds" "fm' = fm" using "1.prems"(1)
      by (simp_all add: Allocate_sectors.simps [of n ds fm i])
    moreover have "nat n - i = 0" using False by simp
    ultimately show ?thesis by simp
  next
    case True
    obtain s fm1 where f: "FindAndSet fm = (s, fm1)" by (cases "FindAndSet fm") auto
    have s: "s \<noteq> -1" and r: "Allocate_sectors n (ds[i := s]) fm1 (i + 1) = (True, ds', fm')"
      using "1.prems"(1) True f
      by (auto simp add: Allocate_sectors.simps [of n ds fm i] Let_def split: if_splits)
    have il: "i < length ds" using True "1.prems"(2) by simp
    from "1.IH" [OF True refl f [symmetric] refl s r] "1.prems"(2)
    have ih: "length ds' = length ds" "take (i + 1) ds' = take (i + 1) (ds[i := s])"
      "claimed fm1 fm' (take (nat n - (i + 1)) (drop (i + 1) ds'))"
      by simp_all
    have e: "ds' ! i = s"
    proof -
      have "ds' ! i = take (i + 1) ds' ! i" by simp
      also have "\<dots> = take (i + 1) (ds[i := s]) ! i" using ih(2) by simp
      also have "\<dots> = s" using il by simp
      finally show ?thesis .
    qed
    have t: "take i ds' = take i ds"
    proof -
      have "take i ds' = take i (take (i + 1) ds')" by (simp add: min_def)
      also have "\<dots> = take i (take (i + 1) (ds[i := s]))" using ih(2) by simp
      also have "\<dots> = take i ds" by (simp add: min_def)
      finally show ?thesis .
    qed
    have d: "drop i ds' = s # drop (i + 1) ds'"
      using il ih(1) e by (simp add: Cons_nth_drop_Suc [symmetric])
    have "nat n - i = Suc (nat n - (i + 1))" using True by simp
    then have "take (nat n - i) (drop i ds') = s # take (nat n - (i + 1)) (drop (i + 1) ds')"
      using d by simp
    then have "claimed fm fm' (take (nat n - i) (drop i ds'))"
      using claimed_step [OF f s ih(3)] by simp
    then show ?thesis using ih(1) t by simp
  qed
qed

lemma claimed_is_int32:
  "claimed fm fm' ss \<Longrightarrow> length fm \<le> 2147483648 \<Longrightarrow> list_all is_int32 ss"
  by (auto simp add: claimed_def list_all_iff is_int32_def)

lemma Allocate_wellFormed:
  "Allocate this freeMap n = (True, h, freeMap') \<Longrightarrow>
   length (dataSectors this) = nat NumDirect \<Longrightarrow> nextFileHeader this = None \<Longrightarrow>
   nextFileHeaderSector this = -1 \<Longrightarrow> 0 \<le> n \<Longrightarrow> is_int32 n \<Longrightarrow>
   length freeMap \<le> 2147483648 \<Longrightarrow>
     wellFormed h \<and> claimed freeMap freeMap' (allSectors h)"
proof (induction this freeMap n arbitrary: h freeMap' rule: Allocate.induct)
  case (1 this freeMap fileSize)
  let ?ns = "min (divRoundUp fileSize SectorSize) NumDirect"
  obtain ok sectors fm1 where a: "Allocate_sectors ?ns (dataSectors this) freeMap 0 = (ok, sectors, fm1)"
    by (cases "Allocate_sectors ?ns (dataSectors this) freeMap 0") auto
  have nc: "\<not> NumClear freeMap < ?ns" and ok: "ok"
    using "1.prems"(1) a
    by (auto simp add: Allocate.simps [of this freeMap fileSize] Let_def
          split: if_splits bool.splits prod.splits)
  have ns0: "0 \<le> ?ns" "?ns \<le> NumDirect" using "1.prems"(5)
    by (auto simp: divRoundUp_def C_div_def C_mod_def SectorSize_def NumDirect_def)
  have nl: "?ns \<le> int (length (dataSectors this))" using "1.prems"(2) ns0 by simp
  have a_true: "Allocate_sectors ?ns (dataSectors this) freeMap 0 = (True, sectors, fm1)"
    using a ok by simp
  from Allocate_sectors_spec [OF a_true nl]
  have sp: "length sectors = nat NumDirect" "claimed freeMap fm1 (take (nat ?ns) sectors)"
    using "1.prems"(2) by simp_all
  have l1: "length fm1 = length freeMap" using sp(2) by (simp add: claimed_def)
  have i32: "list_all is_int32 (take (nat ?ns) sectors)"
    using claimed_is_int32 [OF sp(2) "1.prems"(7)] .
  show ?case
  proof (cases "divRoundUp fileSize SectorSize > NumDirect")
    case False
    have "h = FileHeader fileSize ?ns sectors (nextFileHeaderSector this) (nextFileHeader this)"
      and "freeMap' = fm1"
      using "1.prems"(1) a nc ok False
      by (simp_all add: Allocate.simps [of this freeMap fileSize] Let_def)
    then show ?thesis using "1.prems"(3,4,6) ns0 sp i32 by simp
  next
    case True
    then have big: "MaxFileSize < fileSize" using "1.prems"(5)
      by (auto simp: divRoundUp_def C_div_def C_mod_def SectorSize_def NumDirect_def MaxFileSize_def
            split: if_splits)
    obtain s fm2 where f: "FindAndSet fm1 = (s, fm2)" by (cases "FindAndSet fm1") auto
    obtain r nxt fm3 where n: "Allocate newFileHeader fm2 (fileSize - MaxFileSize) = (r, nxt, fm3)"
      by (cases "Allocate newFileHeader fm2 (fileSize - MaxFileSize)") auto
    have s1: "s \<noteq> -1" and h: "h = FileHeader fileSize ?ns sectors s (Some nxt)" and r: "r"
      and fm': "freeMap' = fm3"
      using "1.prems"(1) a nc ok True f n
      by (auto simp add: Allocate.simps [of this freeMap fileSize] Let_def
            split: if_splits bool.splits prod.splits)
    from FindAndSet_found [OF f s1] have sf: "0 \<le> s" "nat s < length fm1" "fm2 = fm1[nat s := True]"
      by simp_all
    have l2: "length fm2 \<le> 2147483648" using sf l1 "1.prems"(7) by simp
    have a': "(ok, sectors, fm1) =
        Allocate_sectors ?ns (dataSectors (FileHeader fileSize ?ns (dataSectors this)
           (nextFileHeaderSector this) (nextFileHeader this))) freeMap 0"
      using a by simp
    have ok': "ok = True" using ok by simp
    have n': "Allocate newFileHeader fm2 (fileSize - MaxFileSize) = (True, nxt, fm3)"
      using n r by simp
    have fresh: "length (dataSectors newFileHeader) = nat NumDirect"
      "nextFileHeader newFileHeader = None" "nextFileHeaderSector newFileHeader = -1"
      by (simp_all add: newFileHeader_def)
    have pos: "0 \<le> fileSize - MaxFileSize" using big by simp
    have m: "MaxFileSize = 3712" by (simp add: MaxFileSize_def NumDirect_def SectorSize_def)
    have i2: "is_int32 (fileSize - MaxFileSize)" using "1.prems"(6) big m by (simp add: is_int32_def)
    have ih: "wellFormed nxt \<and> claimed fm2 fm3 (allSectors nxt)"
      using "1.IH" [OF refl refl refl nc a' ok' refl True refl f [symmetric] s1 n' fresh pos i2 l2] .
    have c2: "claimed fm1 fm3 (s # allSectors nxt)"
      using claimed_step [OF f s1 conjunct2 [OF ih]] .
    have c: "claimed freeMap fm3 (take (nat ?ns) sectors @ s # allSectors nxt)"
      using claimed_append [OF sp(2) c2] .
    have si: "is_int32 s" using sf l1 "1.prems"(7) by (simp add: is_int32_def)
    show ?thesis using h fm' ih c ns0 sp i32 si s1 "1.prems"(6) by simp
  qed
qed

text \<open>
  The headers that \<^verbatim>\<open>FileSystem\<close> writes back satisfy the conditions of the round trip: a
  successful \<^verbatim>\<open>Allocate\<close> on a fresh header gives a well-formed header whose sectors
  were all free in the map and are claimed once each, so they differ from each other and
  from any sector that was marked before, such as the one taken for the header itself.
\<close>

lemma allocated_header_fits_roundtrip:
  assumes "Allocate newFileHeader freeMap n = (True, h, freeMap')"
    and "0 \<le> n" and "is_int32 n" and "length freeMap \<le> 2147483648"
    and "0 \<le> sector \<and> nat sector < length freeMap \<and> freeMap ! nat sector"
  shows "wellFormed h \<and> claimed freeMap freeMap' (allSectors h)
         \<and> distinct (sector # chainSectors h)"
proof -
  have w: "wellFormed h \<and> claimed freeMap freeMap' (allSectors h)"
    using Allocate_wellFormed [OF assms(1) _ _ _ assms(2-4)] by (simp add: newFileHeader_def)
  then have d: "distinct (allSectors h)" by (simp add: claimed_def)
  have "sector \<notin> set (allSectors h)" using w assms(5) by (auto simp add: claimed_def)
  then show ?thesis using w chainSectors_subseq [OF d] by auto
qed

text \<open>
  C7. For a file header as \<^verbatim>\<open>Allocate\<close> leaves it, whose chain occupies sectors
  different from each other and from \<open>sector\<close>, \<^verbatim>\<open>WriteBack(sector)\<close> followed by
  \<^verbatim>\<open>FetchFrom(sector)\<close> on a fresh header returns a header with the same
  \<^verbatim>\<open>numBytes\<close>, \<^verbatim>\<open>numSectors\<close>, \<^verbatim>\<open>nextFileHeaderSector\<close>, the same first
  \<^verbatim>\<open>numSectors\<close> entries of \<^verbatim>\<open>dataSectors\<close>, and the same all along the chain of
  successors; and every sector written holds its header's fields in the order
  \<^verbatim>\<open>numBytes\<close>, \<^verbatim>\<open>numSectors\<close>, \<^verbatim>\<open>nextFileHeaderSector\<close>, \<^verbatim>\<open>dataSectors\<close>.
\<close>

theorem WriteBack_FetchFrom_roundtrip:
  assumes "wellFormed h" and "distinct (sector # chainSectors h)"
  shows "\<exists>disk' h'. WriteBack disk h sector = Inr disk'
           \<and> FetchFrom disk' newFileHeader sector = Some (Inr h')
           \<and> sameStored h h'
           \<and> numBytes h' = numBytes h \<and> numSectors h' = numSectors h
           \<and> nextFileHeaderSector h' = nextFileHeaderSector h
           \<and> take (nat (numSectors h)) (dataSectors h') = take (nat (numSectors h)) (dataSectors h)
           \<and> chainSectors h' = chainSectors h
           \<and> length (chainHeaders h') = length (chainHeaders h)
           \<and> map disk' (sector # chainSectors h) = map sectorLayout (chainHeaders h)"
proof -
  from WriteBack_FetchFrom [OF assms, of disk] obtain disk' where
    w: "WriteBack disk h sector = Inr disk'"
    and im: "map disk' (sector # chainSectors h) = map WriteBack_buf (chainHeaders h)"
    and f: "FetchFrom disk' newFileHeader sector = Some (Inr (storedForm h))"
    by blast
  have s: "sameStored h (storedForm h)" using assms(1) by (rule sameStored_storedForm)
  have t: "take (nat (numSectors h)) (dataSectors (storedForm h)) =
           take (nat (numSectors h)) (dataSectors h)"
    using s by (cases h; cases "storedForm h") simp
  show ?thesis
    using w f s t im chainHeaders_layout [OF assms(1)] storedForm_fields [of h] by auto
qed

theorem WriteBack_FetchFrom_roundtrip_witness:
  "\<exists>disk' h'. WriteBack blankDisk chainedHeader 1 = Inr disk'
      \<and> FetchFrom disk' newFileHeader 1 = Some (Inr h')
      \<and> sameStored chainedHeader h'
      \<and> numBytes h' = 3812 \<and> numSectors h' = 29 \<and> nextFileHeaderSector h' = 31
      \<and> chainSectors h' = [31] \<and> length (chainHeaders h') = 2
      \<and> map disk' [1, 31] = map sectorLayout (chainHeaders chainedHeader)"
proof -
  have wf: "wellFormed chainedHeader" by code_simp
  have c: "chainSectors chainedHeader = [31]" by code_simp
  have d: "distinct (1 # chainSectors chainedHeader)" unfolding c by simp
  have v: "numBytes chainedHeader = 3812" "numSectors chainedHeader = 29"
    "nextFileHeaderSector chainedHeader = 31" "length (chainHeaders chainedHeader) = 2"
    by code_simp+
  from WriteBack_FetchFrom_roundtrip [OF wf d, of blankDisk] show ?thesis
    unfolding c v by auto
qed

text \<open>
  C6. \<^verbatim>\<open>Allocate\<close> stores the whole remaining size in \<^verbatim>\<open>numBytes\<close> of every header of
  the chain (\<^verbatim>\<open>numBytes = fileSize\<close>), and \<^verbatim>\<open>FileLength\<close> adds these up. When
  \<^verbatim>\<open>Allocate\<close> succeeds on a fresh header with a size above \<^verbatim>\<open>MaxFileSize\<close>, the header
  does chain to a further header, but \<^verbatim>\<open>FileLength()\<close> is larger than the size: it counts
  the bytes of the later headers once more in each earlier one. Up to \<^verbatim>\<open>MaxFileSize\<close>
  there is one header and \<^verbatim>\<open>FileLength()\<close> is the size.
\<close>

theorem chained_FileLength_exceeds_size:
  assumes "Allocate newFileHeader freeMap fileSize = (True, h, freeMap')" and "0 < fileSize"
  shows "numBytes h = fileSize
       \<and> (MaxFileSize < fileSize \<longrightarrow> nextFileHeader h \<noteq> None \<and> fileSize < FileLength h)
       \<and> (fileSize \<le> MaxFileSize \<longrightarrow> nextFileHeader h = None \<and> FileLength h = fileSize)"
  using Allocate_FileLength [OF assms(1) _ assms(2)] by (simp add: newFileHeader_def)

theorem chained_FileLength_exceeds_size_witness:
  "(case Allocate newFileHeader formattedFreeMap (MaxFileSize + 100) of
      (r, h, freeMap') \<Rightarrow>
        (r, FileLength h, length (chainHeaders h), numBytes h,
         map_option numBytes (nextFileHeader h)))
     = (True, MaxFileSize + 200, 2, MaxFileSize + 100, Some 100)
   \<and> MaxFileSize + 100 < FileLength chainedHeader"
proof -
  have e: "(case Allocate newFileHeader formattedFreeMap (MaxFileSize + 100) of
      (r, h, freeMap') \<Rightarrow>
        (r, FileLength h, length (chainHeaders h), numBytes h,
         map_option numBytes (nextFileHeader h)))
     = (True, MaxFileSize + 200, 2, MaxFileSize + 100, Some 100)"
    by code_simp
  obtain fm where a: "Allocate newFileHeader formattedFreeMap (MaxFileSize + 100)
      = (True, chainedHeader, fm)"
    using e by (cases "Allocate newFileHeader formattedFreeMap (MaxFileSize + 100)")
      (auto simp add: chainedHeader_def)
  have m: "MaxFileSize = 3712" by (simp add: MaxFileSize_def NumDirect_def SectorSize_def)
  have "MaxFileSize + 100 < FileLength chainedHeader"
    using chained_FileLength_exceeds_size [OF a] m by simp
  then show ?thesis using e by simp
qed

subsection \<open>Priority donation and the priority invariant\<close>


lemma donationFrame_refl [simp]: "donationFrame k k"
  by (simp add: donationFrame_def)







subsection \<open>The priority invariant along kernel calls\<close>

lemma samePriorities_refl [simp]: "samePriorities k k"
  by (simp add: samePriorities_def)


























lemmas kernel_run_defs =
  chainKernel_def bootKernel_def idleLock_def Lock_Acquire_def
  Lock_Acquire_loop_def IsHeldByCurrentThread_def DonatePriorityToLockHolder_def
  eval_nat_numeral CompareThread_def ThreadComparator_def getSchedulerType_def
  IsPreemptive_def EffectivePriorityComparator_def getEffectivePriority_def
  Thread_ctor_def setPriority_def Let_def UpdateReadyList_def IsInList_def
  setWaitQueue_def Thread_Sleep_def Thread_Yield_def updateBurstTime_def setStatus_def
  FindNextToRun_def RemoveFront_def Run_def ReadyToRun_def setDesiredLock_def fun_upd_twist

lemma predictBurst_half: "predictBurst (1/2) 0 10 = 5"
  by code_simp

lemma chain_step1: "Lock_Acquire 8 (1/2) chainKernel 0 = Inr (blockedKernel None)"
  by (simp add: blockedKernel_def kernel_run_defs predictBurst_half)

lemma chain_mark: "setDesiredLock (blockedKernel None) 1 0 = Inr (blockedKernel (Some 0))"
  by (simp add: blockedKernel_def kernel_run_defs)

lemma chain_step2:
  "(case ReadyToRun (blockedKernel d) 2 of
      Inl e \<Rightarrow> Inl e
    | Inr k3 \<Rightarrow> Thread_Yield (1/2) k3 (currentThread k3)) = Inr (waitingKernel d)"
  by (simp add: waitingKernel_def blockedKernel_def kernel_run_defs predictBurst_half)

lemma nestedAcquire_steps:
  "nestedAcquire Inr = Lock_Acquire 8 (1/2) (waitingKernel None) 1"
  "nestedAcquire (\<lambda>k. setDesiredLock k 1 0) = Lock_Acquire 8 (1/2) (waitingKernel (Some 0)) 1"
proof -
  have a: "(case ReadyToRun (blockedKernel d) 2 of
      Inl e \<Rightarrow> Inl e
    | Inr k3 \<Rightarrow>
        (case Thread_Yield (1/2) k3 (currentThread k3) of
           Inl e \<Rightarrow> Inl e
         | Inr k4 \<Rightarrow> Lock_Acquire 8 (1/2) k4 1)) = Lock_Acquire 8 (1/2) (waitingKernel d) 1" for d
  proof -
    from chain_step2 [of d] obtain k3 where r: "ReadyToRun (blockedKernel d) 2 = Inr k3"
      and y: "Thread_Yield (1/2) k3 (currentThread k3) = Inr (waitingKernel d)"
      by (cases "ReadyToRun (blockedKernel d) 2") auto
    show ?thesis by (simp add: r y)
  qed
  show "nestedAcquire Inr = Lock_Acquire 8 (1/2) (waitingKernel None) 1"
    unfolding nestedAcquire_def chain_step1 using a [of None] by simp
  show "nestedAcquire (\<lambda>k. setDesiredLock k 1 0) = Lock_Acquire 8 (1/2) (waitingKernel (Some 0)) 1"
    unfolding nestedAcquire_def chain_step1 using a [of "Some 0"] chain_mark by simp
qed

text \<open>
  C4. \<^verbatim>\<open>setEffectivePriority\<close> passes a donation on through \<^verbatim>\<open>desiredLock\<close> and
  \<^verbatim>\<open>desiredJoin\<close>, but \<^verbatim>\<open>Lock::Acquire\<close> never sets \<^verbatim>\<open>desiredLock\<close>. After thread 1
  has blocked on lock 0 its \<^verbatim>\<open>desiredLock\<close> is still \<^verbatim>\<open>NULL\<close>; when thread 2 then
  blocks on lock 1 and donates priority 6 to thread 1, the holder of lock 0 keeps the
  effective priority 3. Had the blocked thread recorded the lock with
  \<^verbatim>\<open>setDesiredLock\<close>, the holder of lock 0 would have received priority 6.
\<close>

theorem Acquire_leaves_desiredLock_unset:
  "map_sum id (\<lambda>k. (currentThread k, status (threads k 1), waitQueue (locks k 0),
                      getEffectivePriority (threads k 0), desiredLock (threads k 1)))
     (Lock_Acquire 8 (1/2) chainKernel 0) = Inr (0, BLOCKED, [1], 3, None)
   \<and> map_sum id (\<lambda>k. (waitQueue (locks k 1), getEffectivePriority (threads k 1),
                        getEffectivePriority (threads k 0)))
       (nestedAcquire Inr) = Inr ([2], 6, 3)
   \<and> map_sum id (\<lambda>k. (waitQueue (locks k 1), getEffectivePriority (threads k 1),
                        getEffectivePriority (threads k 0)))
       (nestedAcquire (\<lambda>k. setDesiredLock k 1 0)) = Inr ([2], 6, 6)"
proof -
  have a: "map_sum id (\<lambda>k. (currentThread k, status (threads k 1), waitQueue (locks k 0),
                      getEffectivePriority (threads k 0), desiredLock (threads k 1)))
     (Lock_Acquire 8 (1/2) chainKernel 0) = Inr (0, BLOCKED, [1], 3, None)"
    by code_simp
  have b: "map_sum id (\<lambda>k. (waitQueue (locks k 1), getEffectivePriority (threads k 1),
                        getEffectivePriority (threads k 0)))
       (Lock_Acquire 8 (1/2) (waitingKernel None) 1) = Inr ([2], 6, 3)"
    by code_simp
  have c: "map_sum id (\<lambda>k. (waitQueue (locks k 1), getEffectivePriority (threads k 1),
                        getEffectivePriority (threads k 0)))
       (Lock_Acquire 8 (1/2) (waitingKernel (Some 0)) 1) = Inr ([2], 6, 6)"
    by code_simp
  show ?thesis using a b c by (simp only: nestedAcquire_steps)
qed

end
